theory Spec2Isabelle
  imports Main "HOL-Library.Word" "HOL-Library.Signed_Division"
begin


section \<open>The document tree\<close>

text \<open>
  The matchers read nodes of the external \<^verbatim>\<open>html\<close> package through the fields
  \<^verbatim>\<open>Type\<close>, \<^verbatim>\<open>Data\<close>, \<^verbatim>\<open>Attr\<close>, \<^verbatim>\<open>Parent\<close>, \<^verbatim>\<open>FirstChild\<close>, \<^verbatim>\<open>LastChild\<close>,
  \<^verbatim>\<open>PrevSibling\<close> and \<^verbatim>\<open>NextSibling\<close>, and compare node pointers. A pointer into a
  well-formed tree is a position in it: the subtree below it, together with the path
  back to the root (the left siblings nearest first, the parent's own fields, the
  parent's path, the right siblings). Two pointers into one tree are equal exactly
  when the positions are.
\<close>

datatype NodeType = ErrorNode | TextNode | DocumentNode | ElementNode | CommentNode | DoctypeNode

record Attribute =
  Key :: string
  Val :: string

datatype tree = Tree (ttype: NodeType) (tdata: string) (tattr: "Attribute list") (tchildren: "tree list")

datatype path = Top | Below "tree list" NodeType string "Attribute list" path "tree list"

datatype Node = At tree path

fun Type :: "Node \<Rightarrow> NodeType" where
  "Type (At (Tree ty d a cs) p) = ty"

fun Data :: "Node \<Rightarrow> string" where
  "Data (At (Tree ty d a cs) p) = d"

fun Attr :: "Node \<Rightarrow> Attribute list" where
  "Attr (At (Tree ty d a cs) p) = a"

fun Parent :: "Node \<Rightarrow> Node option" where
  "Parent (At t Top) = None"
| "Parent (At t (Below l ty d a p r)) = Some (At (Tree ty d a (rev l @ t # r)) p)"

fun PrevSibling :: "Node \<Rightarrow> Node option" where
  "PrevSibling (At t (Below (x # l) ty d a p r)) = Some (At x (Below l ty d a p (t # r)))"
| "PrevSibling n = None"

fun NextSibling :: "Node \<Rightarrow> Node option" where
  "NextSibling (At t (Below l ty d a p (x # r))) = Some (At x (Below (t # l) ty d a p r))"
| "NextSibling n = None"

fun FirstChild :: "Node \<Rightarrow> Node option" where
  "FirstChild (At (Tree ty d a []) p) = None"
| "FirstChild (At (Tree ty d a (x # xs)) p) = Some (At x (Below [] ty d a p xs))"

fun LastChild :: "Node \<Rightarrow> Node option" where
  "LastChild (At (Tree ty d a cs) p) =
     (if cs = [] then None else Some (At (last cs) (Below (rev (butlast cs)) ty d a p [])))"

text \<open>The siblings still to the right, and still to the left, of a position: the
  measures of the loops over \<^verbatim>\<open>NextSibling\<close> and \<^verbatim>\<open>PrevSibling\<close>.\<close>

fun rights :: "Node option \<Rightarrow> nat" where
  "rights None = 0"
| "rights (Some (At t Top)) = 1"
| "rights (Some (At t (Below l ty d a p r))) = Suc (length r)"

fun lefts :: "Node option \<Rightarrow> nat" where
  "lefts None = 0"
| "lefts (Some (At t Top)) = 1"
| "lefts (Some (At t (Below l ty d a p r))) = Suc (length l)"

lemma rights_NextSibling [termination_simp]: "rights (NextSibling c) < rights (Some c)"
  by (induction c rule: NextSibling.induct) simp_all

lemma lefts_PrevSibling [termination_simp]: "lefts (PrevSibling c) < lefts (Some c)"
  by (induction c rule: PrevSibling.induct) simp_all

section \<open>Attribute matchers\<close>

text \<open>\<^verbatim>\<open>matchAttribute\<close>: the \<^verbatim>\<open>range n.Attr\<close> loop is the recursion on the list.\<close>

fun matchAttribute_loop :: "Attribute list \<Rightarrow> string \<Rightarrow> (string \<Rightarrow> bool) \<Rightarrow> bool" where
  "matchAttribute_loop [] key f = False"
| "matchAttribute_loop (a # as) key f =
     (if Key a = key \<and> f (Val a) then True else matchAttribute_loop as key f)"

definition matchAttribute :: "Node \<Rightarrow> string \<Rightarrow> (string \<Rightarrow> bool) \<Rightarrow> bool" where
  "matchAttribute n key f =
     (if Type n \<noteq> ElementNode then False else matchAttribute_loop (Attr n) key f)"

fun attributeNotEqualMatch_loop :: "Attribute list \<Rightarrow> string \<Rightarrow> string \<Rightarrow> bool" where
  "attributeNotEqualMatch_loop [] key val = True"
| "attributeNotEqualMatch_loop (a # as) key val =
     (if Key a = key \<and> Val a = val then False else attributeNotEqualMatch_loop as key val)"

definition attributeNotEqualMatch :: "string \<Rightarrow> string \<Rightarrow> Node \<Rightarrow> bool" where
  "attributeNotEqualMatch key val n =
     (if Type n \<noteq> ElementNode then False else attributeNotEqualMatch_loop (Attr n) key val)"

section \<open>Machine integers\<close>

text \<open>
  Go's \<^verbatim>\<open>int\<close> on the 64-bit platforms: two's complement, \<^verbatim>\<open>+\<close> and \<^verbatim>\<open>-\<close> wrap
  around, comparisons are signed, \<^verbatim>\<open>/\<close> and \<^verbatim>\<open>%\<close> truncate towards zero (and the
  quotient of the least value by \<^verbatim>\<open>-1\<close> wraps to the least value).
\<close>

type_synonym go_int = "64 word"

definition quo :: "go_int \<Rightarrow> go_int \<Rightarrow> go_int" where
  "quo x y = word_of_int (sint x sdiv sint y)"

definition rem :: "go_int \<Rightarrow> go_int \<Rightarrow> go_int" where
  "rem x y = word_of_int (sint x smod sint y)"

section \<open>The nth-child family\<close>

text \<open>
  The loop of \<^verbatim>\<open>nthChildMatch\<close> over the parent's children, from \<^verbatim>\<open>c\<close> on; it returns
  the final \<^verbatim>\<open>i\<close> and \<^verbatim>\<open>count\<close>. The \<^verbatim>\<open>break\<close> is the branch that returns at once.
\<close>

function nthChildMatch_loop ::
  "bool \<Rightarrow> bool \<Rightarrow> Node \<Rightarrow> Node option \<Rightarrow> go_int \<Rightarrow> go_int \<Rightarrow> go_int \<times> go_int" where
  "nthChildMatch_loop last' ofType n None i count = (i, count)"
| "nthChildMatch_loop last' ofType n (Some c) i count =
     (if Type c \<noteq> ElementNode \<or> (ofType \<and> Data c \<noteq> Data n)
      then nthChildMatch_loop last' ofType n (NextSibling c) i count
      else if c = n
        then (if \<not> last' then (count + 1, count + 1)
              else nthChildMatch_loop last' ofType n (NextSibling c) (count + 1) (count + 1))
        else nthChildMatch_loop last' ofType n (NextSibling c) i (count + 1))"
  by pat_completeness auto
termination
  by (relation "measure (\<lambda>(last', ofType, n, c, i, count). rights c)")
    (simp_all add: rights_NextSibling)

definition nthChildMatch :: "go_int \<Rightarrow> go_int \<Rightarrow> bool \<Rightarrow> bool \<Rightarrow> Node \<Rightarrow> bool" where
  "nthChildMatch a b last' ofType n =
     (if Type n \<noteq> ElementNode then False
      else case Parent n of
        None \<Rightarrow> False
      | Some parent \<Rightarrow>
          if Type parent = DocumentNode then False
          else case nthChildMatch_loop last' ofType n (FirstChild parent) (- 1) 0 of
            (i, count) \<Rightarrow>
              if i = - 1 then False
              else let i = (if last' then count - i + 1 else i);
                       i = i - b
                   in if a = 0 then i = 0
                      else rem i a = 0 \<and> 0 \<le>s quo i a)"

function simpleNthChildMatch_loop ::
  "go_int \<Rightarrow> bool \<Rightarrow> Node \<Rightarrow> Node option \<Rightarrow> go_int \<Rightarrow> bool" where
  "simpleNthChildMatch_loop b ofType n None count = False"
| "simpleNthChildMatch_loop b ofType n (Some c) count =
     (if Type c \<noteq> ElementNode \<or> (ofType \<and> Data c \<noteq> Data n)
      then simpleNthChildMatch_loop b ofType n (NextSibling c) count
      else if c = n then count + 1 = b
      else if b \<le>s count + 1 then False
      else simpleNthChildMatch_loop b ofType n (NextSibling c) (count + 1))"
  by pat_completeness auto
termination
  by (relation "measure (\<lambda>(b, ofType, n, c, count). rights c)")
    (simp_all add: rights_NextSibling)

definition simpleNthChildMatch :: "go_int \<Rightarrow> bool \<Rightarrow> Node \<Rightarrow> bool" where
  "simpleNthChildMatch b ofType n =
     (if Type n \<noteq> ElementNode then False
      else case Parent n of
        None \<Rightarrow> False
      | Some parent \<Rightarrow>
          if Type parent = DocumentNode then False
          else simpleNthChildMatch_loop b ofType n (FirstChild parent) 0)"

function simpleNthLastChildMatch_loop ::
  "go_int \<Rightarrow> bool \<Rightarrow> Node \<Rightarrow> Node option \<Rightarrow> go_int \<Rightarrow> bool" where
  "simpleNthLastChildMatch_loop b ofType n None count = False"
| "simpleNthLastChildMatch_loop b ofType n (Some c) count =
     (if Type c \<noteq> ElementNode \<or> (ofType \<and> Data c \<noteq> Data n)
      then simpleNthLastChildMatch_loop b ofType n (PrevSibling c) count
      else if c = n then count + 1 = b
      else if b \<le>s count + 1 then False
      else simpleNthLastChildMatch_loop b ofType n (PrevSibling c) (count + 1))"
  by pat_completeness auto
termination
  by (relation "measure (\<lambda>(b, ofType, n, c, count). lefts c)")
    (simp_all add: lefts_PrevSibling)

definition simpleNthLastChildMatch :: "go_int \<Rightarrow> bool \<Rightarrow> Node \<Rightarrow> bool" where
  "simpleNthLastChildMatch b ofType n =
     (if Type n \<noteq> ElementNode then False
      else case Parent n of
        None \<Rightarrow> False
      | Some parent \<Rightarrow>
          if Type parent = DocumentNode then False
          else simpleNthLastChildMatch_loop b ofType n (LastChild parent) 0)"


section \<open>Sibling combinators\<close>

text \<open>A \<^verbatim>\<open>Matcher\<close> is used through its \<^verbatim>\<open>Match\<close> method only: a predicate on nodes.\<close>

type_synonym Matcher = "Node \<Rightarrow> bool"

definition tagSelector_Match :: "string \<Rightarrow> Matcher" where
  "tagSelector_Match tag n \<longleftrightarrow> Type n = ElementNode \<and> Data n = tag"

text \<open>The two backward loops of \<^verbatim>\<open>siblingMatch\<close>, from the sibling \<^verbatim>\<open>c\<close> on.\<close>

function siblingMatch_adjacent_loop :: "Matcher \<Rightarrow> Node option \<Rightarrow> bool" where
  "siblingMatch_adjacent_loop s1 None = False"
| "siblingMatch_adjacent_loop s1 (Some c) =
     (if Type c = TextNode \<or> Type c = CommentNode
      then siblingMatch_adjacent_loop s1 (PrevSibling c)
      else s1 c)"
  by pat_completeness auto
termination
  by (relation "measure (\<lambda>(s1, c). lefts c)") (simp_all add: lefts_PrevSibling)

function siblingMatch_general_loop :: "Matcher \<Rightarrow> Node option \<Rightarrow> bool" where
  "siblingMatch_general_loop s1 None = False"
| "siblingMatch_general_loop s1 (Some c) =
     (if s1 c then True else siblingMatch_general_loop s1 (PrevSibling c))"
  by pat_completeness auto
termination
  by (relation "measure (\<lambda>(s1, c). lefts c)") (simp_all add: lefts_PrevSibling)

definition siblingMatch :: "Matcher \<Rightarrow> Matcher \<Rightarrow> bool \<Rightarrow> Node \<Rightarrow> bool" where
  "siblingMatch s1 s2 adjacent n =
     (if \<not> s2 n then False
      else if adjacent then siblingMatch_adjacent_loop s1 (PrevSibling n)
      else siblingMatch_general_loop s1 (PrevSibling n))"

section \<open>Notions of the specification\<close>

text \<open>
  The siblings of a node in document order, itself included; the siblings that the
  nth-child family counts (elements, of the node's own tag name for the of-type
  variants); and the 1-based ordinal position of the node among them, from the front
  or from the back.
\<close>

fun siblings :: "Node \<Rightarrow> tree list" where
  "siblings (At t Top) = [t]"
| "siblings (At t (Below l ty d a p r)) = rev l @ t # r"

definition counts :: "bool \<Rightarrow> string \<Rightarrow> tree \<Rightarrow> bool" where
  "counts ofType d t \<longleftrightarrow> ttype t = ElementNode \<and> (ofType \<longrightarrow> tdata t = d)"

definition cnt :: "bool \<Rightarrow> string \<Rightarrow> tree list \<Rightarrow> nat" where
  "cnt ofType d ts = length (filter (counts ofType d) ts)"

fun ordinal :: "bool \<Rightarrow> bool \<Rightarrow> Node \<Rightarrow> int" where
  "ordinal last' ofType (At t Top) = 1"
| "ordinal last' ofType (At t (Below l ty d a p r)) =
     1 + int (cnt ofType (tdata t) (if last' then r else l))"

text \<open>The preceding siblings of a node, the nearest first.\<close>

function prevSiblings :: "Node \<Rightarrow> Node list" where
  "prevSiblings n = (case PrevSibling n of None \<Rightarrow> [] | Some c \<Rightarrow> c # prevSiblings c)"
  by pat_completeness auto
termination
  by (relation "measure (\<lambda>n. lefts (Some n))") (simp, metis in_measure lefts_PrevSibling)

text \<open>
  The first element among the preceding siblings, walking backward; the first
  preceding sibling that is neither a text node nor a comment; and a matcher applied
  to such a sibling, false where there is none.
\<close>

definition firstElementBefore :: "Node \<Rightarrow> Node option" where
  "firstElementBefore n = find (\<lambda>c. Type c = ElementNode) (prevSiblings n)"

definition firstUnskippedBefore :: "Node \<Rightarrow> Node option" where
  "firstUnskippedBefore n =
     find (\<lambda>c. Type c \<noteq> TextNode \<and> Type c \<noteq> CommentNode) (prevSiblings n)"

fun matchesAt :: "Matcher \<Rightarrow> Node option \<Rightarrow> bool" where
  "matchesAt s None = False"
| "matchesAt s (Some e) = s e"


section \<open>Errors and the parser's state\<close>

text \<open>
  An error value is built by \<^verbatim>\<open>errors.New\<close> from a message or by \<^verbatim>\<open>fmt.Errorf\<close> from a
  format and its arguments, or comes from \<^verbatim>\<open>strconv.Atoi\<close> or \<^verbatim>\<open>regexp.Compile\<close>; a
  run-time panic ends the call as well, and is kept apart from the errors returned.
\<close>

datatype fmtarg = ArgChar char | ArgString string | ArgInt nat

datatype error =
    ErrorsNew string
  | Errorf string "fmtarg list"
  | NumError string string string
  | RegexpError string
  | RuntimePanic string

text \<open>
  The parser holds the source text \<^verbatim>\<open>s\<close> and the position \<^verbatim>\<open>i\<close>; it reads at and after
  \<^verbatim>\<open>i\<close> only, and \<^verbatim>\<open>i\<close> never exceeds the length. Its state is the text not yet read,
  \<^verbatim>\<open>s[i:]\<close>: \<^verbatim>\<open>len(p.s) - p.i\<close> is the length of it, \<^verbatim>\<open>p.s[p.i]\<close> its head. A parsing
  function returns its result and the text left, or the error.
\<close>

type_synonym 'a result = "error + 'a \<times> string"

definition byte :: "char \<Rightarrow> nat" where
  "byte c = of_char c"

definition hexDigit :: "char \<Rightarrow> bool" where
  "hexDigit c \<longleftrightarrow> byte CHR ''0'' \<le> byte c \<and> byte c \<le> byte CHR ''9''
     \<or> byte CHR ''a'' \<le> byte c \<and> byte c \<le> byte CHR ''f''
     \<or> byte CHR ''A'' \<le> byte c \<and> byte c \<le> byte CHR ''F''"

definition nameStart :: "char \<Rightarrow> bool" where
  "nameStart c \<longleftrightarrow> byte CHR ''a'' \<le> byte c \<and> byte c \<le> byte CHR ''z''
     \<or> byte CHR ''A'' \<le> byte c \<and> byte c \<le> byte CHR ''Z''
     \<or> c = CHR ''_'' \<or> byte c > 127"

definition nameChar :: "char \<Rightarrow> bool" where
  "nameChar c \<longleftrightarrow> byte CHR ''a'' \<le> byte c \<and> byte c \<le> byte CHR ''z''
     \<or> byte CHR ''A'' \<le> byte c \<and> byte c \<le> byte CHR ''Z''
     \<or> c = CHR ''_'' \<or> byte c > 127
     \<or> c = CHR ''-'' \<or> byte CHR ''0'' \<le> byte c \<and> byte c \<le> byte CHR ''9''"

definition isDigit :: "char \<Rightarrow> bool" where
  "isDigit c \<longleftrightarrow> byte CHR ''0'' \<le> byte c \<and> byte c \<le> byte CHR ''9''"

text \<open>\<^verbatim>\<open>toLowerASCII\<close>: every ASCII capital letter lowercased, the other bytes kept.\<close>

definition lowerASCII :: "char \<Rightarrow> char" where
  "lowerASCII c =
     (if byte CHR ''A'' \<le> byte c \<and> byte c \<le> byte CHR ''Z''
      then char_of (byte c + (byte CHR ''a'' - byte CHR ''A'')) else c)"

definition toLowerASCII :: "string \<Rightarrow> string" where
  "toLowerASCII s = map lowerASCII s"

text \<open>The characters \<^verbatim>\<open>\r\<close>, \<^verbatim>\<open>\n\<close>, \<^verbatim>\<open>\f\<close> and \<^verbatim>\<open>\t\<close>.\<close>

abbreviation CR :: char where "CR \<equiv> CHR 0x0D"
abbreviation LF :: char where "LF \<equiv> CHR 0x0A"
abbreviation FF :: char where "FF \<equiv> CHR 0x0C"
abbreviation TAB :: char where "TAB \<equiv> CHR 0x09"

subsection \<open>Numbers in text\<close>

definition hexValue :: "char \<Rightarrow> nat" where
  "hexValue c =
     (if byte c \<le> byte CHR ''9'' then byte c - byte CHR ''0''
      else if byte c \<le> byte CHR ''F'' then byte c - byte CHR ''A'' + 10
      else byte c - byte CHR ''a'' + 10)"

text \<open>\<^verbatim>\<open>strconv.ParseUint(s, 16, 21)\<close> on at most five hexadecimal digits: no error.\<close>

definition parseHex :: "string \<Rightarrow> nat" where
  "parseHex ds = foldl (\<lambda>v c. 16 * v + hexValue c) 0 ds"

definition decimalValue :: "string \<Rightarrow> int" where
  "decimalValue ds = foldl (\<lambda>v c. 10 * v + int (byte c - byte CHR ''0'')) 0 ds"

text \<open>
  \<^verbatim>\<open>strconv.Atoi\<close> on a non-empty run of decimal digits: the value, or a range error when
  it exceeds the greatest \<^verbatim>\<open>int\<close>.
\<close>

definition Atoi :: "string \<Rightarrow> error + go_int" where
  "Atoi ds =
     (if decimalValue ds \<le> 2 ^ 63 - 1 then Inr (word_of_int (decimalValue ds))
      else Inl (NumError ''Atoi'' ds ''value out of range''))"

text \<open>
  \<^verbatim>\<open>string(rune(v))\<close>: the UTF-8 encoding of the code point, and of U+FFFD for a
  surrogate half or a value beyond U+10FFFF.
\<close>

definition utf8 :: "nat \<Rightarrow> string" where
  "utf8 v =
     (if v < 0x80 then [char_of v]
      else if v < 0x800 then [char_of (0xC0 + v div 64), char_of (0x80 + v mod 64)]
      else if (0xD800 \<le> v \<and> v \<le> 0xDFFF) \<or> v > 0x10FFFF then [CHR 0xEF, CHR 0xBF, CHR 0xBD]
      else if v < 0x10000
        then [char_of (0xE0 + v div 4096), char_of (0x80 + (v div 64) mod 64), char_of (0x80 + v mod 64)]
      else [char_of (0xF0 + v div 262144), char_of (0x80 + (v div 4096) mod 64),
            char_of (0x80 + (v div 64) mod 64), char_of (0x80 + v mod 64)])"

section \<open>Lexical primitives\<close>

text \<open>
  \<^verbatim>\<open>parseEscape\<close>. The loop over the hexadecimal digits runs from \<^verbatim>\<open>start = p.i + 1\<close> while
  \<^verbatim>\<open>i < p.i + 6\<close>: over at most five characters.
\<close>

fun skipEscapeEnd :: "string \<Rightarrow> string" where
  "skipEscapeEnd [] = []"
| "skipEscapeEnd (x # t) =
     (if x = CR then (case t of [] \<Rightarrow> t | y # u \<Rightarrow> if y = LF then u else t)
      else if x = CHR '' '' \<or> x = TAB \<or> x = LF \<or> x = FF then t
      else x # t)"

definition parseEscape :: "string \<Rightarrow> string result" where
  "parseEscape s =
     (case s of
        c0 # c # rest \<Rightarrow>
          if c0 \<noteq> CHR 0x5C then Inl (ErrorsNew ''invalid escape sequence'')
          else if c = CR \<or> c = LF \<or> c = FF
            then Inl (ErrorsNew ''escaped line ending outside string'')
          else if hexDigit c then
            (let ds = takeWhile hexDigit (take 5 (c # rest))
             in Inr (utf8 (parseHex ds), skipEscapeEnd (drop (length ds) (c # rest))))
          else Inr ([c], rest)
      | _ \<Rightarrow> Inl (ErrorsNew ''invalid escape sequence''))"

lemma skipEscapeEnd_length: "length (skipEscapeEnd s) \<le> length s"
  by (cases s) (auto split: list.splits)

lemma parseEscape_shorter:
  assumes "parseEscape s = Inr (v, s')"
  shows "length s' < length s"
proof -
  from assms obtain c rest where s: "s = CHR 0x5C # c # rest"
    by (auto simp: parseEscape_def split: list.splits if_splits)
  show ?thesis
  proof (cases "hexDigit c")
    case True
    define ds where "ds = takeWhile hexDigit (take 5 (c # rest))"
    have "ds \<noteq> []" using True by (simp add: ds_def)
    then have "length (drop (length ds) (c # rest)) \<le> length rest"
      by (cases ds) simp_all
    moreover have "s' = skipEscapeEnd (drop (length ds) (c # rest))"
      using assms True s by (auto simp: parseEscape_def Let_def ds_def split: if_splits)
    ultimately show ?thesis
      using skipEscapeEnd_length [of "drop (length ds) (c # rest)"] s by simp
  next
    case False
    then show ?thesis using assms s by (auto simp: parseEscape_def split: if_splits)
  qed
qed

text \<open>
  The loop of \<^verbatim>\<open>parseName\<close>, with the result so far: a run of name characters is taken
  whole, an escape is decoded, anything else ends the loop.
\<close>

function parseName_loop :: "string \<Rightarrow> string \<Rightarrow> string result" where
  "parseName_loop result [] = Inr (result, [])"
| "parseName_loop result (c # cs) =
     (if nameChar c
        then parseName_loop (result @ takeWhile nameChar (c # cs)) (dropWhile nameChar (c # cs))
      else if c = CHR 0x5C then
        (case parseEscape (c # cs) of
           Inl err \<Rightarrow> Inl err
         | Inr (val, s') \<Rightarrow> parseName_loop (result @ val) s')
      else Inr (result, c # cs))"
  by pat_completeness auto
termination
  by (relation "measure (\<lambda>(result, s). length s)")
    (auto simp: length_dropWhile_le less_Suc_eq_le dest!: parseEscape_shorter)

definition parseName :: "string \<Rightarrow> string result" where
  "parseName s =
     (case parseName_loop [] s of
        Inl err \<Rightarrow> Inl err
      | Inr (result, s') \<Rightarrow>
          if result = [] then Inl (ErrorsNew ''expected name, found EOF instead'')
          else Inr (result, s'))"

definition parseIdentifier :: "string \<Rightarrow> string result" where
  "parseIdentifier s =
     (let startingDash = (s \<noteq> [] \<and> hd s = CHR ''-'');
          s1 = (if startingDash then tl s else s)
      in case s1 of
           [] \<Rightarrow> Inl (ErrorsNew ''expected identifier, found EOF instead'')
         | c # cs \<Rightarrow>
             if \<not> (nameStart c \<or> c = CHR 0x5C)
               then Inl (Errorf ''expected identifier, found %c instead'' [ArgChar c])
             else (case parseName s1 of
                     Inl err \<Rightarrow> Inl err
                   | Inr (result, s') \<Rightarrow>
                       Inr ((if startingDash then ''-'' @ result else result), s')))"

text \<open>
  The loop of \<^verbatim>\<open>parseString\<close> after the opening quote. A backslash before a line
  ending is a continuation and is dropped; another backslash starts an escape. The
  loop ends at the closing quote, which is consumed; running out of text is the error
  \<^verbatim>\<open>EOF in string\<close>.
\<close>

definition stringRunEnd :: "char \<Rightarrow> char \<Rightarrow> bool" where
  "stringRunEnd quote c \<longleftrightarrow> c = quote \<or> c = CHR 0x5C \<or> c = CR \<or> c = LF \<or> c = FF"

function parseString_loop :: "char \<Rightarrow> string \<Rightarrow> string \<Rightarrow> string result" where
  "parseString_loop quote result [] = Inl (ErrorsNew ''EOF in string'')"
| "parseString_loop quote result (c # cs) =
     (if c = CHR 0x5C then
        (case cs of
           [] \<Rightarrow>
             (case parseEscape (c # cs) of
                Inl err \<Rightarrow> Inl err
              | Inr (val, s') \<Rightarrow> parseString_loop quote (result @ val) s')
         | c1 # cs1 \<Rightarrow>
             if c1 = CR then
               (case cs1 of
                  [] \<Rightarrow> parseString_loop quote result cs1
                | c2 # cs2 \<Rightarrow>
                    if c2 = LF then parseString_loop quote result cs2
                    else parseString_loop quote result cs1)
             else if c1 = LF \<or> c1 = FF then parseString_loop quote result cs1
             else (case parseEscape (c # cs) of
                     Inl err \<Rightarrow> Inl err
                   | Inr (val, s') \<Rightarrow> parseString_loop quote (result @ val) s'))
      else if c = quote then Inr (result, cs)
      else if c = CR \<or> c = LF \<or> c = FF then Inl (ErrorsNew ''unexpected end of line in string'')
      else parseString_loop quote (result @ takeWhile (\<lambda>x. \<not> stringRunEnd quote x) (c # cs))
             (dropWhile (\<lambda>x. \<not> stringRunEnd quote x) (c # cs)))"
  by pat_completeness auto
termination
  by (relation "measure (\<lambda>(quote, result, s). length s)")
    (auto simp: length_dropWhile_le less_Suc_eq_le stringRunEnd_def dest!: parseEscape_shorter)

definition parseString :: "string \<Rightarrow> string result" where
  "parseString s =
     (if length s < 2 then Inl (ErrorsNew ''expected string, found EOF instead'')
      else parseString_loop (hd s) [] (tl s))"

text \<open>
  The scan of \<^verbatim>\<open>parseRegex\<close>: the text up to the first unmatched \<^verbatim>\<open>)\<close> or \<^verbatim>\<open>]\<close>, which
  is not consumed, and the text from it on; nothing when the text ends first.
\<close>

fun parseRegex_scan :: "int \<Rightarrow> string \<Rightarrow> string \<Rightarrow> (string \<times> string) option" where
  "parseRegex_scan opn acc [] = None"
| "parseRegex_scan opn acc (c # cs) =
     (if c = CHR ''('' \<or> c = CHR ''['' then parseRegex_scan (opn + 1) (acc @ [c]) cs
      else if c = CHR '')'' \<or> c = CHR '']'' then
        (if opn - 1 < 0 then Some (acc, c # cs) else parseRegex_scan (opn - 1) (acc @ [c]) cs)
      else parseRegex_scan opn (acc @ [c]) cs)"

text \<open>\<^verbatim>\<open>strings.Index(s, "*/")\<close>, nothing for \<^verbatim>\<open>-1\<close>.\<close>

fun indexCommentEnd :: "string \<Rightarrow> nat option" where
  "indexCommentEnd (a # b # t) =
     (if a = CHR ''*'' \<and> b = CHR ''/'' then Some 0 else map_option Suc (indexCommentEnd (b # t)))"
| "indexCommentEnd s = None"

definition isSpace :: "char \<Rightarrow> bool" where
  "isSpace c \<longleftrightarrow> c = CHR '' '' \<or> c = TAB \<or> c = CR \<or> c = LF \<or> c = FF"

function skipWhitespace_loop :: "string \<Rightarrow> string" where
  "skipWhitespace_loop [] = []"
| "skipWhitespace_loop (c # cs) =
     (if isSpace c then skipWhitespace_loop cs
      else if c = CHR ''/'' \<and> cs \<noteq> [] \<and> hd cs = CHR ''*'' then
        (case indexCommentEnd (tl cs) of
           Some e \<Rightarrow> skipWhitespace_loop (drop (e + 4) (c # cs))
         | None \<Rightarrow> c # cs)
      else c # cs)"
  by pat_completeness auto
termination
  by (relation "measure length") auto

text \<open>\<^verbatim>\<open>skipWhitespace\<close> returns whether it moved, and the text left.\<close>

definition skipWhitespace :: "string \<Rightarrow> bool \<times> string" where
  "skipWhitespace s = (length (skipWhitespace_loop s) < length s, skipWhitespace_loop s)"

definition consumeParenthesis :: "string \<Rightarrow> bool \<times> string" where
  "consumeParenthesis s =
     (case s of
        [] \<Rightarrow> (False, s)
      | c # cs \<Rightarrow> if c = CHR ''('' then (True, snd (skipWhitespace cs)) else (False, s))"

definition consumeClosingParenthesis :: "string \<Rightarrow> bool \<times> string" where
  "consumeClosingParenthesis s =
     (case snd (skipWhitespace s) of
        [] \<Rightarrow> (False, s)
      | c # cs \<Rightarrow> if c = CHR '')'' then (True, cs) else (False, s))"

definition parseInteger :: "string \<Rightarrow> go_int result" where
  "parseInteger s =
     (if takeWhile isDigit s = [] then Inl (ErrorsNew ''expected integer, but didn't find it'')
      else case Atoi (takeWhile isDigit s) of
        Inl err \<Rightarrow> Inl err
      | Inr val \<Rightarrow> Inr (val, dropWhile isDigit s))"

section \<open>The An+B parser\<close>

text \<open>\<^verbatim>\<open>parseNth\<close> is a state machine of labels and \<^verbatim>\<open>goto\<close>s: a function for each label.\<close>

definition parseNth_eof :: "(go_int \<times> go_int) result" where
  "parseNth_eof =
     Inl (ErrorsNew ''unexpected EOF while attempting to parse expression of form an+b'')"

definition parseNth_invalid :: "(go_int \<times> go_int) result" where
  "parseNth_invalid =
     Inl (ErrorsNew ''unexpected character while attempting to parse expression of form an+b'')"

definition isN :: "char \<Rightarrow> bool" where
  "isN c \<longleftrightarrow> c = CHR ''n'' \<or> c = CHR ''N''"

definition parseNth_readN :: "go_int \<Rightarrow> string \<Rightarrow> (go_int \<times> go_int) result" where
  "parseNth_readN a s =
     (case snd (skipWhitespace s) of
        [] \<Rightarrow> parseNth_eof
      | c # cs \<Rightarrow>
          if c = CHR ''+'' then
            (case parseInteger (snd (skipWhitespace cs)) of
               Inl err \<Rightarrow> Inl err
             | Inr (b, s') \<Rightarrow> Inr ((a, b), s'))
          else if c = CHR ''-'' then
            (case parseInteger (snd (skipWhitespace cs)) of
               Inl err \<Rightarrow> Inl err
             | Inr (b, s') \<Rightarrow> Inr ((a, - b), s'))
          else Inr ((a, 0), c # cs))"

definition parseNth_readA :: "go_int \<Rightarrow> string \<Rightarrow> (go_int \<times> go_int) result" where
  "parseNth_readA a s =
     (case s of
        [] \<Rightarrow> parseNth_eof
      | c # cs \<Rightarrow> if isN c then parseNth_readN a cs else Inr ((0, a), s))"

definition parseNth_positiveA :: "string \<Rightarrow> (go_int \<times> go_int) result" where
  "parseNth_positiveA s =
     (case s of
        [] \<Rightarrow> parseNth_eof
      | c # cs \<Rightarrow>
          if isDigit c then
            (case parseInteger s of
               Inl err \<Rightarrow> Inl err
             | Inr (a, s') \<Rightarrow> parseNth_readA a s')
          else if isN c then parseNth_readN 1 cs
          else parseNth_invalid)"

definition parseNth_negativeA :: "string \<Rightarrow> (go_int \<times> go_int) result" where
  "parseNth_negativeA s =
     (case s of
        [] \<Rightarrow> parseNth_eof
      | c # cs \<Rightarrow>
          if isDigit c then
            (case parseInteger s of
               Inl err \<Rightarrow> Inl err
             | Inr (a, s') \<Rightarrow> parseNth_readA (- a) s')
          else if isN c then parseNth_readN (- 1) cs
          else parseNth_invalid)"

definition parseNth :: "string \<Rightarrow> (go_int \<times> go_int) result" where
  "parseNth s =
     (case s of
        [] \<Rightarrow> parseNth_eof
      | c # cs \<Rightarrow>
          if c = CHR ''-'' then parseNth_negativeA cs
          else if c = CHR ''+'' then parseNth_positiveA cs
          else if isDigit c then parseNth_positiveA s
          else if isN c then parseNth_readN 1 cs
          else if c = CHR ''o'' \<or> c = CHR ''O'' \<or> c = CHR ''e'' \<or> c = CHR ''E'' then
            (case parseName s of
               Inl nameErr \<Rightarrow> Inl nameErr
             | Inr (ident, s') \<Rightarrow>
                 if toLowerASCII ident = ''odd'' then Inr ((2, 1), s')
                 else if toLowerASCII ident = ''even'' then Inr ((2, 0), s')
                 else Inl (Errorf ''expected 'odd' or 'even', but found '%s' instead''
                             [ArgString (toLowerASCII ident)]))
          else parseNth_invalid)"

text \<open>
  Notions of the specification of the An+B grammar, in terms of their own: a decimal
  digit and its value, a non-empty run of decimal digits and the number it denotes, a
  run whose number is at most the greatest \<^verbatim>\<open>int\<close>, \<open>2\<^sup>6\<^sup>3 - 1\<close>, and a text that does not
  go on with a name character or an escape, or with a digit.
\<close>

definition decimalDigit :: "char \<Rightarrow> bool" where
  "decimalDigit c \<longleftrightarrow> c \<in> set ''0123456789''"

text \<open>The value of a digit is its place in the row of the ten digits.\<close>

definition digitValue :: "char \<Rightarrow> int" where
  "digitValue c = int (length (takeWhile (\<lambda>d. d \<noteq> c) ''0123456789''))"

fun denotes :: "string \<Rightarrow> int" where
  "denotes [] = 0"
| "denotes (c # cs) = digitValue c * 10 ^ length cs + denotes cs"

definition digits :: "string \<Rightarrow> bool" where
  "digits ds \<longleftrightarrow> ds \<noteq> [] \<and> list_all decimalDigit ds"

definition inRange :: "string \<Rightarrow> bool" where
  "inRange ds \<longleftrightarrow> denotes ds \<le> 9223372036854775807"

definition number :: "string \<Rightarrow> go_int" where
  "number ds = word_of_int (denotes ds)"

definition endsName :: "string \<Rightarrow> bool" where
  "endsName rest \<longleftrightarrow> rest = [] \<or> \<not> nameChar (hd rest) \<and> hd rest \<noteq> CHR 0x5C"

definition endsNumber :: "string \<Rightarrow> bool" where
  "endsNumber rest \<longleftrightarrow> rest = [] \<or> \<not> decimalDigit (hd rest)"


section \<open>Specificity\<close>

text \<open>\<^verbatim>\<open>Specificity\<close> is \<^verbatim>\<open>[3]uint8\<close>: the loops over its three indices are written out.\<close>

type_synonym Specificity = "8 word \<times> 8 word \<times> 8 word"

fun Less :: "Specificity \<Rightarrow> Specificity \<Rightarrow> bool" where
  "Less (s0, s1, s2) (o0, o1, o2) =
     (if s0 < o0 then True else if s0 > o0 then False
      else if s1 < o1 then True else if s1 > o1 then False
      else if s2 < o2 then True else if s2 > o2 then False
      else False)"

fun add :: "Specificity \<Rightarrow> Specificity \<Rightarrow> Specificity" where
  "add (s0, s1, s2) (o0, o1, o2) = (s0 + o0, s1 + o1, s2 + o2)"

section \<open>The parser's selectors\<close>

text \<open>
  Modelled from the spec: the type \<^verbatim>\<open>oneSelector\<close>, whose declaration is not among the
  sources. The parser uses its fields \<^verbatim>\<open>match\<close> (a function value, \<^verbatim>\<open>nil\<close> until a
  matcher is installed), \<^verbatim>\<open>Specificity\<close> and \<^verbatim>\<open>PseudoElement\<close>; a \<^verbatim>\<open>Selector\<close> is the
  slice of the alternatives of a group.
\<close>

type_synonym matcher = "Matcher option"

record oneSelector =
  match :: matcher
  Specificity :: Specificity
  PseudoElement :: string

definition oneSelector_zero :: oneSelector where
  "oneSelector_zero = \<lparr>match = None, Specificity = (0, 0, 0), PseudoElement = []\<rparr>"

type_synonym Selector = "oneSelector list"

fun maximumSpecificity_loop :: "Specificity \<Rightarrow> Selector \<Rightarrow> Specificity" where
  "maximumSpecificity_loop out [] = out"
| "maximumSpecificity_loop out (sel # sels) =
     maximumSpecificity_loop (if Less out (Specificity sel) then Specificity sel else out) sels"

definition maximumSpecificity :: "Selector \<Rightarrow> Specificity" where
  "maximumSpecificity s = maximumSpecificity_loop (0, 0, 0) s"

text \<open>
  The functions that build the matchers (\<^verbatim>\<open>attributeEqualsSelector\<close> and the others)
  belong to a snapshot of \<^verbatim>\<open>selector.go\<close> that is not among the sources, and
  \<^verbatim>\<open>regexp.Compile\<close> and \<^verbatim>\<open>strings.ToLower\<close> are library functions: the parser takes
  them as a parameter. Each builds a function value, never \<^verbatim>\<open>nil\<close>; where the parser
  hands on a \<^verbatim>\<open>match\<close> field, the argument may be \<^verbatim>\<open>nil\<close>. The type \<^verbatim>\<open>'r\<close> is that of
  compiled regular expressions.
\<close>

record 'r selectors =
  regexp_Compile :: "string \<Rightarrow> error + 'r"
  strings_ToLower :: "string \<Rightarrow> string"
  typeSelector :: "string \<Rightarrow> oneSelector"
  attributeExistsSelector :: "string \<Rightarrow> Matcher"
  attributeEqualsSelector :: "string \<Rightarrow> string \<Rightarrow> Matcher"
  attributeNotEqualSelector :: "string \<Rightarrow> string \<Rightarrow> Matcher"
  attributeIncludesSelector :: "string \<Rightarrow> string \<Rightarrow> Matcher"
  attributeDashmatchSelector :: "string \<Rightarrow> string \<Rightarrow> Matcher"
  attributePrefixSelector :: "string \<Rightarrow> string \<Rightarrow> Matcher"
  attributeSuffixSelector :: "string \<Rightarrow> string \<Rightarrow> Matcher"
  attributeSubstringSelector :: "string \<Rightarrow> string \<Rightarrow> Matcher"
  attributeRegexSelector :: "string \<Rightarrow> 'r \<Rightarrow> Matcher"
  negatedSelector :: "Matcher \<Rightarrow> Matcher"
  hasDescendantSelector :: "Matcher \<Rightarrow> Matcher"
  hasChildSelector :: "Matcher \<Rightarrow> Matcher"
  unionMatch :: "Selector \<Rightarrow> Matcher"
  textSubstrSelector :: "string \<Rightarrow> Matcher"
  ownTextSubstrSelector :: "string \<Rightarrow> Matcher"
  textRegexSelector :: "'r \<Rightarrow> Matcher"
  ownTextRegexSelector :: "'r \<Rightarrow> Matcher"
  simpleNthChildSelector :: "go_int \<Rightarrow> bool \<Rightarrow> Matcher"
  simpleNthLastChildSelector :: "go_int \<Rightarrow> bool \<Rightarrow> Matcher"
  nthChildSelector :: "go_int \<Rightarrow> go_int \<Rightarrow> bool \<Rightarrow> bool \<Rightarrow> Matcher"
  onlyChildSelector :: "bool \<Rightarrow> Matcher"
  inputSelector :: Matcher
  emptyElementSelector :: Matcher
  rootSelector :: Matcher
  intersectionSelector :: "matcher \<Rightarrow> matcher \<Rightarrow> Matcher"
  descendantSelector :: "matcher \<Rightarrow> matcher \<Rightarrow> Matcher"
  childSelector :: "matcher \<Rightarrow> matcher \<Rightarrow> Matcher"
  siblingSelector :: "matcher \<Rightarrow> matcher \<Rightarrow> bool \<Rightarrow> Matcher"

section \<open>The grammar parser: simple selectors\<close>

definition parseRegex :: "'r selectors \<Rightarrow> string \<Rightarrow> 'r result" where
  "parseRegex sel s =
     (if length s < 2 then Inl (ErrorsNew ''expected regular expression, found EOF instead'')
      else case parseRegex_scan 0 [] s of
        None \<Rightarrow> Inl (ErrorsNew ''EOF in regular expression'')
      | Some (pattern, s') \<Rightarrow>
          (case regexp_Compile sel pattern of
             Inl err \<Rightarrow> Inl err
           | Inr rx \<Rightarrow> Inr (rx, s')))"

definition parseTypeSelector :: "'r selectors \<Rightarrow> string \<Rightarrow> oneSelector result" where
  "parseTypeSelector sel s =
     (case parseIdentifier s of
        Inl err \<Rightarrow> Inl err
      | Inr (tag, s') \<Rightarrow> Inr (typeSelector sel tag, s'))"

definition parseIDSelector :: "'r selectors \<Rightarrow> string \<Rightarrow> oneSelector result" where
  "parseIDSelector sel s =
     (case s of
        [] \<Rightarrow> Inl (Errorf ''expected id selector (#id), found EOF instead'' [])
      | c # cs \<Rightarrow>
          if c \<noteq> CHR ''#''
            then Inl (Errorf ''expected id selector (#id), found '%c' instead'' [ArgChar c])
          else (case parseName cs of
                  Inl err \<Rightarrow> Inl err
                | Inr (ident, s') \<Rightarrow>
                    Inr (\<lparr>match = Some (attributeEqualsSelector sel ''id'' ident),
                          Specificity = (1, 0, 0), PseudoElement = []\<rparr>, s')))"

definition parseClassSelector :: "'r selectors \<Rightarrow> string \<Rightarrow> oneSelector result" where
  "parseClassSelector sel s =
     (case s of
        [] \<Rightarrow> Inl (Errorf ''expected class selector (.class), found EOF instead'' [])
      | c # cs \<Rightarrow>
          if c \<noteq> CHR ''.''
            then Inl (Errorf ''expected class selector (.class), found '%c' instead'' [ArgChar c])
          else (case parseIdentifier cs of
                  Inl err \<Rightarrow> Inl err
                | Inr (class, s') \<Rightarrow>
                    Inr (\<lparr>match = Some (attributeIncludesSelector sel ''class'' class),
                          Specificity = (0, 1, 0), PseudoElement = []\<rparr>, s')))"

text \<open>The end of \<^verbatim>\<open>parseAttributeMatcher\<close>: whitespace and the closing bracket.\<close>

definition closeAttribute :: "string \<Rightarrow> error + string" where
  "closeAttribute s =
     (case snd (skipWhitespace s) of
        [] \<Rightarrow> Inl (ErrorsNew ''unexpected EOF in attribute selector'')
      | c # cs \<Rightarrow>
          if c \<noteq> CHR '']'' then Inl (Errorf ''expected ']', found '%c' instead'' [ArgChar c])
          else Inr cs)"

text \<open>Its final \<^verbatim>\<open>switch\<close> on the operator, for the operators with a text operand.\<close>

definition attributeOperator :: "'r selectors \<Rightarrow> string \<Rightarrow> string \<Rightarrow> string \<Rightarrow> error + Matcher" where
  "attributeOperator sel op key val =
     (if op = ''='' then Inr (attributeEqualsSelector sel key val)
      else if op = ''!='' then Inr (attributeNotEqualSelector sel key val)
      else if op = ''~='' then Inr (attributeIncludesSelector sel key val)
      else if op = ''|='' then Inr (attributeDashmatchSelector sel key val)
      else if op = ''^='' then Inr (attributePrefixSelector sel key val)
      else if op = ''$='' then Inr (attributeSuffixSelector sel key val)
      else if op = ''*='' then Inr (attributeSubstringSelector sel key val)
      else Inl (Errorf ''attribute operator %q is not supported'' [ArgString op]))"

definition parseAttributeValue :: "'r selectors \<Rightarrow> string \<Rightarrow> string \<Rightarrow> string \<Rightarrow> Matcher result" where
  "parseAttributeValue sel key op s =
     (case s of
        [] \<Rightarrow> Inl (ErrorsNew ''unexpected EOF in attribute selector'')
      | c # cs \<Rightarrow>
          if op = ''#='' then
            (case parseRegex sel s of
               Inl err \<Rightarrow> Inl err
             | Inr (rx, s') \<Rightarrow>
                 (case closeAttribute s' of
                    Inl err \<Rightarrow> Inl err
                  | Inr s'' \<Rightarrow> Inr (attributeRegexSelector sel key rx, s'')))
          else
            (case (if c = CHR 0x27 \<or> c = CHR 0x22 then parseString s else parseIdentifier s) of
               Inl err \<Rightarrow> Inl err
             | Inr (val, s') \<Rightarrow>
                 (case closeAttribute s' of
                    Inl err \<Rightarrow> Inl err
                  | Inr s'' \<Rightarrow>
                      (case attributeOperator sel op key val of
                         Inl err \<Rightarrow> Inl err
                       | Inr m \<Rightarrow> Inr (m, s'')))))"

definition parseAttributeMatcher :: "'r selectors \<Rightarrow> string \<Rightarrow> Matcher result" where
  \<open>parseAttributeMatcher sel s =
     (case s of
        [] \<Rightarrow> Inl (Errorf ''expected attribute selector ([attribute]), found EOF instead'' [])
      | c # cs \<Rightarrow>
          if c \<noteq> CHR ''[''
            then Inl (Errorf ''expected attribute selector ([attribute]), found '%c' instead''
                        [ArgChar c])
          else (case parseIdentifier (snd (skipWhitespace cs)) of
                  Inl err \<Rightarrow> Inl err
                | Inr (key, s1) \<Rightarrow>
                    (case snd (skipWhitespace s1) of
                       [] \<Rightarrow> Inl (ErrorsNew ''unexpected EOF in attribute selector'')
                     | c2 # cs2 \<Rightarrow>
                         if c2 = CHR '']'' then Inr (attributeExistsSelector sel key, cs2)
                         else if length (c2 # cs2) \<le> 2
                           then Inl (ErrorsNew ''unexpected EOF in attribute selector'')
                         else if c2 = CHR ''=''
                           then parseAttributeValue sel key ''='' (snd (skipWhitespace cs2))
                         else if hd cs2 \<noteq> CHR ''=''
                           then Inl (Errorf ''expected equality operator, found "%s" instead''
                                       [ArgString (take 2 (c2 # cs2))])
                         else parseAttributeValue sel key (take 2 (c2 # cs2))
                                (snd (skipWhitespace (tl cs2))))))\<close>

definition parseAttributeSelector :: "'r selectors \<Rightarrow> string \<Rightarrow> oneSelector result" where
  "parseAttributeSelector sel s =
     (case parseAttributeMatcher sel s of
        Inl err \<Rightarrow> Inl err
      | Inr (m, s') \<Rightarrow>
          Inr (\<lparr>match = Some m, Specificity = (0, 1, 0), PseudoElement = []\<rparr>, s'))"


section \<open>The text left by the parsing functions\<close>

text \<open>
  No function gives back more text than it was given, and those that read at least one
  character leave less: the facts behind the termination of the grammar parser.
\<close>

lemma skipWhitespace_loop_length: "length (skipWhitespace_loop s) \<le> length s"
proof (induction s rule: skipWhitespace_loop.induct)
  case 1
  show ?case by simp
next
  case (2 c cs)
  show ?case
  proof (cases "isSpace c")
    case True
    with 2(1) show ?thesis by simp
  next
    case False
    show ?thesis
    proof (cases "c = CHR ''/'' \<and> cs \<noteq> [] \<and> hd cs = CHR ''*''")
      case no: False
      with False show ?thesis by auto
    next
      case yes: True
      show ?thesis
      proof (cases "indexCommentEnd (tl cs)")
        case None
        with False yes show ?thesis by simp
      next
        case (Some e)
        have "length (skipWhitespace_loop (drop (e + 4) (c # cs))) \<le> length (drop (e + 4) (c # cs))"
          using 2(2) [OF False _ Some] yes by simp
        with False yes Some show ?thesis by simp
      qed
    qed
  qed
qed

lemma skipWhitespace_length [simp]: "length (snd (skipWhitespace s)) \<le> length s"
  by (simp add: skipWhitespace_def skipWhitespace_loop_length)

lemma skipWhitespace_length_Cons:
  "snd (skipWhitespace s) = c # cs \<Longrightarrow> length cs < length s"
  using skipWhitespace_length [of s] by simp

lemma parseName_loop_length:
  "parseName_loop res s = Inr (r, s') \<Longrightarrow>
     length s' \<le> length s \<and> (length s' = length s \<longrightarrow> r = res)"
proof (induction res s arbitrary: r s' rule: parseName_loop.induct)
  case (1 result)
  then show ?case by simp
next
  case (2 result c cs)
  show ?case
  proof (cases "nameChar c")
    case True
    have "length (dropWhile nameChar cs) \<le> length cs" by (rule length_dropWhile_le)
    moreover have "length s' \<le> length (dropWhile nameChar (c # cs))"
      using 2(1) [OF True] 2(3) True by simp
    ultimately show ?thesis using True by simp
  next
    case False
    show ?thesis
    proof (cases "c = CHR 0x5C")
      case no: False
      with False 2(3) show ?thesis by simp
    next
      case yes: True
      from 2(3) False yes obtain val s1 where e: "parseEscape (c # cs) = Inr (val, s1)"
        and l: "parseName_loop (result @ val) s1 = Inr (r, s')"
        by (auto split: sum.splits)
      have "length s1 < length (c # cs)" using e by (rule parseEscape_shorter)
      moreover have "length s' \<le> length s1"
        using 2(2) [OF False yes e refl l] by simp
      ultimately show ?thesis by simp
    qed
  qed
qed

lemma parseName_shorter: "parseName s = Inr (r, s') \<Longrightarrow> length s' < length s"
proof -
  assume a: "parseName s = Inr (r, s')"
  then have "parseName_loop [] s = Inr (r, s')" and "r \<noteq> []"
    by (auto simp: parseName_def split: sum.splits if_splits)
  then show ?thesis
    using parseName_loop_length [of "[]" s r s'] by (cases "length s' = length s") auto
qed

lemma parseIdentifier_shorter: "parseIdentifier s = Inr (r, s') \<Longrightarrow> length s' < length s"
proof -
  assume a: "parseIdentifier s = Inr (r, s')"
  define s1 where "s1 = (if s \<noteq> [] \<and> hd s = CHR ''-'' then tl s else s)"
  have "length s1 \<le> length s" by (simp add: s1_def)
  moreover from a obtain r1 where "parseName s1 = Inr (r1, s')"
    by (auto simp: parseIdentifier_def Let_def s1_def split: list.splits sum.splits if_splits)
  then have "length s' < length s1" by (rule parseName_shorter)
  ultimately show ?thesis by simp
qed

lemma parseString_loop_length:
  "parseString_loop quote res s = Inr (r, s') \<Longrightarrow> length s' \<le> length s"
proof (induction quote res s arbitrary: r s' rule: parseString_loop.induct)
  case (1 quote result)
  then show ?case by simp
next
  case (2 quote result c cs)
  show ?case
  proof (cases "c = CHR 0x5C")
    case bs: True
    have esc: "length s' \<le> length (c # cs)"
      if "parseEscape (c # cs) = Inr (val, s1)"
        and "parseString_loop quote (result @ val) s1 = Inr (r, s')"
        and "length s' \<le> length s1" for val s1
      using that parseEscape_shorter [of "c # cs" val s1] by simp
    show ?thesis
    proof (cases cs)
      case Nil
      with 2(8) bs show ?thesis
        by (auto simp: parseEscape_def)
    next
      case (Cons c1 cs1)
      show ?thesis
      proof (cases "c1 = CR")
        case True
        show ?thesis
        proof (cases cs1)
          case Nil
          with 2(2) [OF bs Cons True Nil] 2(8) bs Cons True show ?thesis by simp
        next
          case c2: (Cons c2 cs2)
          show ?thesis
          proof (cases "c2 = LF")
            case True
            with 2(3) [OF bs Cons \<open>c1 = CR\<close> c2 True] 2(8) bs Cons \<open>c1 = CR\<close> c2
            show ?thesis by simp
          next
            case False
            with 2(4) [OF bs Cons \<open>c1 = CR\<close> c2 False] 2(8) bs Cons \<open>c1 = CR\<close> c2
            show ?thesis by simp
          qed
        qed
      next
        case nocr: False
        show ?thesis
        proof (cases "c1 = LF \<or> c1 = FF")
          case True
          with 2(5) [OF bs Cons nocr True] 2(8) bs Cons nocr show ?thesis by simp
        next
          case False
          from 2(8) bs Cons nocr False obtain val s1
            where e: "parseEscape (c # cs) = Inr (val, s1)"
              and l: "parseString_loop quote (result @ val) s1 = Inr (r, s')"
            by (auto split: sum.splits)
          have "length s' \<le> length s1"
            using 2(6) [OF bs Cons nocr False e refl l] .
          with e l show ?thesis by (rule esc)
        qed
      qed
    qed
  next
    case nbs: False
    show ?thesis
    proof (cases "c = quote")
      case True
      with 2(8) nbs show ?thesis by simp
    next
      case nq: False
      show ?thesis
      proof (cases "c = CR \<or> c = LF \<or> c = FF")
        case True
        with 2(8) nbs nq show ?thesis by simp
      next
        case False
        have "length s' \<le> length (dropWhile (\<lambda>x. \<not> stringRunEnd quote x) (c # cs))"
          using 2(7) [OF nbs nq False] 2(8) nbs nq False by simp
        also have "\<dots> \<le> length (c # cs)" by (rule length_dropWhile_le)
        finally show ?thesis .
      qed
    qed
  qed
qed

lemma parseString_shorter: "parseString s = Inr (r, s') \<Longrightarrow> length s' < length s"
proof -
  assume a: "parseString s = Inr (r, s')"
  then have "2 \<le> length s" and "parseString_loop (hd s) [] (tl s) = Inr (r, s')"
    by (auto simp: parseString_def split: if_splits)
  then show ?thesis using parseString_loop_length [of "hd s" "[]" "tl s" r s'] by simp
qed

lemma parseRegex_scan_length:
  "parseRegex_scan opn acc s = Some (p, s') \<Longrightarrow> length s' \<le> length s"
  by (induction opn acc s rule: parseRegex_scan.induct) (auto split: if_splits)

lemma parseRegex_length: "parseRegex sel s = Inr (rx, s') \<Longrightarrow> length s' \<le> length s"
  by (auto simp: parseRegex_def split: if_splits option.splits sum.splits
      dest: parseRegex_scan_length)

lemma parseInteger_length: "parseInteger s = Inr (v, s') \<Longrightarrow> length s' \<le> length s"
  by (auto simp: parseInteger_def length_dropWhile_le split: if_splits sum.splits)

lemma parseNth_readN_length: "parseNth_readN a s = Inr (r, s') \<Longrightarrow> length s' \<le> length s"
proof -
  assume a: "parseNth_readN a s = Inr (r, s')"
  show ?thesis
  proof (cases "snd (skipWhitespace s)")
    case Nil
    with a show ?thesis by (simp add: parseNth_readN_def parseNth_eof_def)
  next
    case (Cons c cs)
    have cs: "length cs < length s" using Cons by (rule skipWhitespace_length_Cons)
    show ?thesis
    proof (cases "c = CHR ''+'' \<or> c = CHR ''-''")
      case False
      with a Cons cs show ?thesis by (auto simp: parseNth_readN_def)
    next
      case True
      with a Cons obtain v where "parseInteger (snd (skipWhitespace cs)) = Inr (v, s')"
        by (auto simp: parseNth_readN_def split: sum.splits if_splits)
      then have "length s' \<le> length (snd (skipWhitespace cs))" by (rule parseInteger_length)
      also have "\<dots> \<le> length cs" by (rule skipWhitespace_length)
      finally show ?thesis using cs by simp
    qed
  qed
qed

lemma parseNth_readA_length: "parseNth_readA a s = Inr (r, s') \<Longrightarrow> length s' \<le> length s"
  by (cases s) (auto simp: parseNth_readA_def parseNth_eof_def split: if_splits
      dest!: parseNth_readN_length)

lemma parseNth_positiveA_length: "parseNth_positiveA s = Inr (r, s') \<Longrightarrow> length s' \<le> length s"
  by (cases s) (auto simp: parseNth_positiveA_def parseNth_eof_def parseNth_invalid_def
      split: if_splits sum.splits dest!: parseNth_readN_length parseNth_readA_length
      parseInteger_length)

lemma parseNth_negativeA_length: "parseNth_negativeA s = Inr (r, s') \<Longrightarrow> length s' \<le> length s"
  by (cases s) (auto simp: parseNth_negativeA_def parseNth_eof_def parseNth_invalid_def
      split: if_splits sum.splits dest!: parseNth_readN_length parseNth_readA_length
      parseInteger_length)

lemma parseNth_length: "parseNth s = Inr (r, s') \<Longrightarrow> length s' \<le> length s"
proof (cases s)
  case Nil
  then show "parseNth s = Inr (r, s') \<Longrightarrow> ?thesis" by (simp add: parseNth_def parseNth_eof_def)
next
  case (Cons c cs)
  assume a: "parseNth s = Inr (r, s')"
  consider (neg) "parseNth_negativeA cs = Inr (r, s')"
    | (pos) "parseNth_positiveA cs = Inr (r, s')"
    | (dig) "parseNth_positiveA (c # cs) = Inr (r, s')"
    | (n) "parseNth_readN 1 cs = Inr (r, s')"
    | (name) x where "parseName (c # cs) = Inr (x, s')"
    using a unfolding Cons parseNth_def
    by (auto simp: parseNth_invalid_def split: if_splits sum.splits prod.splits)
  then show ?thesis
  proof cases
    case neg
    then show ?thesis using parseNth_negativeA_length [of cs r s'] Cons by simp
  next
    case pos
    then show ?thesis using parseNth_positiveA_length [of cs r s'] Cons by simp
  next
    case dig
    then show ?thesis using parseNth_positiveA_length [of "c # cs" r s'] Cons by simp
  next
    case n
    then show ?thesis using parseNth_readN_length [of 1 cs r s'] Cons by simp
  next
    case name
    then show ?thesis using parseName_shorter [of "c # cs" x s'] Cons by simp
  qed
qed

lemma consumeParenthesis_shorter:
  "fst (consumeParenthesis s) \<Longrightarrow> length (snd (consumeParenthesis s)) < length s"
  by (cases s) (auto simp: consumeParenthesis_def less_Suc_eq_le split: if_splits)

lemma consumeClosingParenthesis_length [simp]:
  "length (snd (consumeClosingParenthesis s)) \<le> length s"
proof (cases "snd (skipWhitespace s)")
  case Nil
  then show ?thesis by (simp add: consumeClosingParenthesis_def)
next
  case (Cons c cs)
  then show ?thesis
    using skipWhitespace_length_Cons [OF Cons] by (simp add: consumeClosingParenthesis_def)
qed

lemma consumeClosingParenthesis_shorter:
  "fst (consumeClosingParenthesis s) \<Longrightarrow> length (snd (consumeClosingParenthesis s)) < length s"
proof (cases "snd (skipWhitespace s)")
  case Nil
  then show "fst (consumeClosingParenthesis s) \<Longrightarrow> ?thesis"
    by (simp add: consumeClosingParenthesis_def)
next
  case (Cons c cs)
  then show "fst (consumeClosingParenthesis s) \<Longrightarrow> ?thesis"
    using skipWhitespace_length_Cons [OF Cons]
    by (simp add: consumeClosingParenthesis_def split: if_splits)
qed


section \<open>The grammar parser: pseudo-classes, compounds, chains and groups\<close>

definition errExpectedParenthesis :: error where
  "errExpectedParenthesis = ErrorsNew ''expected '(' but didn't find it''"

definition errExpectedClosingParenthesis :: error where
  "errExpectedClosingParenthesis = ErrorsNew ''expected ')' but didn't find it''"

definition errUnmatchedParenthesis :: error where
  "errUnmatchedParenthesis = ErrorsNew (''unmatched '('' @ [CHR 0x27])"

text \<open>
  \<^verbatim>\<open>parsePseudoclassSelector\<close> sets \<^verbatim>\<open>out.Specificity\<close> to \<^verbatim>\<open>{0, 1, 0}\<close> and switches on
  the name. The value of \<^verbatim>\<open>out\<close> at that point:
\<close>

definition out_start :: oneSelector where
  "out_start = \<lparr>match = None, Specificity = (0, 1, 0), PseudoElement = []\<rparr>"

definition isRelativeName :: "string \<Rightarrow> bool" where
  "isRelativeName name \<longleftrightarrow> name = ''not'' \<or> name = ''has'' \<or> name = ''haschild''"

text \<open>The case \<^verbatim>\<open>"not", "has", "haschild"\<close> after its closing parenthesis.\<close>

definition relativeSelector :: "'r selectors \<Rightarrow> string \<Rightarrow> Selector \<Rightarrow> oneSelector" where
  "relativeSelector sel name grp =
     out_start\<lparr>Specificity := maximumSpecificity grp,
       match := Some (if name = ''not'' then negatedSelector sel (unionMatch sel grp)
                      else if name = ''has'' then hasDescendantSelector sel (unionMatch sel grp)
                      else hasChildSelector sel (unionMatch sel grp))\<rparr>"

definition isPseudoElementName :: "string \<Rightarrow> bool" where
  "isPseudoElementName name \<longleftrightarrow>
     name = ''after'' \<or> name = ''backdrop'' \<or> name = ''before'' \<or> name = ''cue''
     \<or> name = ''first-letter'' \<or> name = ''first-line'' \<or> name = ''grammar-error''
     \<or> name = ''marker'' \<or> name = ''placeholder'' \<or> name = ''selection''
     \<or> name = ''spelling-error''"

text \<open>
  The cases of the \<^verbatim>\<open>switch\<close> that do not parse a nested group: the bodies of the
  cases with an argument first, then the \<^verbatim>\<open>switch\<close> over them and the plain names.
\<close>

definition parsePseudoclass_contains :: "'r selectors \<Rightarrow> string \<Rightarrow> string \<Rightarrow> oneSelector result" where
  "parsePseudoclass_contains sel name s =
     (if \<not> fst (consumeParenthesis s) then Inl errExpectedParenthesis
      else case snd (consumeParenthesis s) of
        [] \<Rightarrow> Inl errUnmatchedParenthesis
      | c # cs \<Rightarrow>
          (case (if c = CHR 0x27 \<or> c = CHR 0x22 then parseString (c # cs)
                 else parseIdentifier (c # cs)) of
             Inl err \<Rightarrow> Inl err
           | Inr (val, s1) \<Rightarrow>
               if snd (skipWhitespace s1) = []
                 then Inl (ErrorsNew ''unexpected EOF in pseudo selector'')
               else if \<not> fst (consumeClosingParenthesis (snd (skipWhitespace s1)))
                 then Inl errExpectedClosingParenthesis
               else Inr (out_start\<lparr>match :=
                           Some (if name = ''contains''
                                 then textSubstrSelector sel (strings_ToLower sel val)
                                 else ownTextSubstrSelector sel (strings_ToLower sel val))\<rparr>,
                         snd (consumeClosingParenthesis (snd (skipWhitespace s1))))))"

definition parsePseudoclass_matches :: "'r selectors \<Rightarrow> string \<Rightarrow> string \<Rightarrow> oneSelector result" where
  "parsePseudoclass_matches sel name s =
     (if \<not> fst (consumeParenthesis s) then Inl errExpectedParenthesis
      else case parseRegex sel (snd (consumeParenthesis s)) of
        Inl err \<Rightarrow> Inl err
      | Inr (rx, s1) \<Rightarrow>
          if s1 = [] then Inl (ErrorsNew ''unexpected EOF in pseudo selector'')
          else if \<not> fst (consumeClosingParenthesis s1) then Inl errExpectedClosingParenthesis
          else Inr (out_start\<lparr>match :=
                      Some (if name = ''matches'' then textRegexSelector sel rx
                            else ownTextRegexSelector sel rx)\<rparr>,
                    snd (consumeClosingParenthesis s1)))"

definition parsePseudoclass_nth :: "'r selectors \<Rightarrow> string \<Rightarrow> string \<Rightarrow> oneSelector result" where
  "parsePseudoclass_nth sel name s =
     (if \<not> fst (consumeParenthesis s) then Inl errExpectedParenthesis
      else case parseNth (snd (consumeParenthesis s)) of
        Inl err \<Rightarrow> Inl err
      | Inr ((a, b), s1) \<Rightarrow>
          if \<not> fst (consumeClosingParenthesis s1) then Inl errExpectedClosingParenthesis
          else if a = 0 then
            Inr (out_start\<lparr>match :=
                   Some (if name = ''nth-child'' then simpleNthChildSelector sel b False
                         else if name = ''nth-of-type'' then simpleNthChildSelector sel b True
                         else if name = ''nth-last-child''
                           then simpleNthLastChildSelector sel b False
                         else simpleNthLastChildSelector sel b True)\<rparr>,
                 snd (consumeClosingParenthesis s1))
          else
            Inr (out_start\<lparr>match :=
                   Some (nthChildSelector sel a b
                           (name = ''nth-last-child'' \<or> name = ''nth-last-of-type'')
                           (name = ''nth-of-type'' \<or> name = ''nth-last-of-type''))\<rparr>,
                 snd (consumeClosingParenthesis s1)))"

definition parsePseudoclass_plain :: "'r selectors \<Rightarrow> string \<Rightarrow> error + oneSelector" where
  "parsePseudoclass_plain sel name =
     (if name = ''first-child''
        then Inr (out_start\<lparr>match := Some (simpleNthChildSelector sel 1 False)\<rparr>)
      else if name = ''last-child''
        then Inr (out_start\<lparr>match := Some (simpleNthLastChildSelector sel 1 False)\<rparr>)
      else if name = ''first-of-type''
        then Inr (out_start\<lparr>match := Some (simpleNthChildSelector sel 1 True)\<rparr>)
      else if name = ''last-of-type''
        then Inr (out_start\<lparr>match := Some (simpleNthLastChildSelector sel 1 True)\<rparr>)
      else if name = ''only-child''
        then Inr (out_start\<lparr>match := Some (onlyChildSelector sel False)\<rparr>)
      else if name = ''only-of-type''
        then Inr (out_start\<lparr>match := Some (onlyChildSelector sel True)\<rparr>)
      else if name = ''input'' then Inr (out_start\<lparr>match := Some (inputSelector sel)\<rparr>)
      else if name = ''empty'' then Inr (out_start\<lparr>match := Some (emptyElementSelector sel)\<rparr>)
      else if name = ''root'' then Inr (out_start\<lparr>match := Some (rootSelector sel)\<rparr>)
      else if isPseudoElementName name
        then Inr (out_start\<lparr>PseudoElement := name, Specificity := (0, 0, 1)\<rparr>)
      else Inl (Errorf ''unknown pseudoclass or pseudoelement :%s'' [ArgString name]))"

definition parsePseudoclassSelector_cases :: "'r selectors \<Rightarrow> string \<Rightarrow> string \<Rightarrow> oneSelector result" where
  "parsePseudoclassSelector_cases sel name s =
     (if name = ''contains'' \<or> name = ''containsown'' then parsePseudoclass_contains sel name s
      else if name = ''matches'' \<or> name = ''matchesown'' then parsePseudoclass_matches sel name s
      else if name = ''nth-child'' \<or> name = ''nth-last-child'' \<or> name = ''nth-of-type''
              \<or> name = ''nth-last-of-type'' then parsePseudoclass_nth sel name s
      else case parsePseudoclass_plain sel name of
        Inl err \<Rightarrow> Inl err
      | Inr out \<Rightarrow> Inr (out, s))"

text \<open>
  The body of the loop of \<^verbatim>\<open>parseSimpleSelectorSequence\<close> after a clause \<^verbatim>\<open>ns\<close> is
  parsed: the new \<^verbatim>\<open>result\<close>, or the error for a pseudo-element that stands alone.
\<close>

definition addClause :: "'r selectors \<Rightarrow> oneSelector \<Rightarrow> oneSelector \<Rightarrow> error + oneSelector" where
  "addClause sel result ns =
     (if match result = None then
        (if match ns = None \<and> PseudoElement ns \<noteq> []
           then Inl (Errorf ''stand-alone %s pseudo-element not allowed''
                       [ArgString (PseudoElement ns)])
         else Inr ns)
      else
        Inr (result\<lparr>match := (if PseudoElement ns = []
                                then Some (intersectionSelector sel (match result) (match ns))
                                else match result),
                     PseudoElement := PseudoElement ns,
                     Specificity := add (Specificity result) (Specificity ns)\<rparr>))"

text \<open>The end of \<^verbatim>\<open>parseSimpleSelectorSequence\<close>: with no matcher, any element matches.\<close>

definition defaultMatch :: "oneSelector result \<Rightarrow> oneSelector result" where
  "defaultMatch r =
     (case r of
        Inl err \<Rightarrow> Inl err
      | Inr (result, s) \<Rightarrow>
          Inr ((if match result = None
                then result\<lparr>match := Some (\<lambda>n. Type n = ElementNode)\<rparr> else result), s))"

text \<open>
  The head of the loop of \<^verbatim>\<open>parseSelector\<close>: the combinator and the text after it, or
  the text at which the function returns (at the end, before \<^verbatim>\<open>,\<close> or \<^verbatim>\<open>)\<close>, or with no
  combinator).
\<close>

definition nextCombinator :: "string \<Rightarrow> (char \<times> string) + string" where
  "nextCombinator s =
     (case snd (skipWhitespace s) of
        [] \<Rightarrow> Inr []
      | c # cs \<Rightarrow>
          if c = CHR ''+'' \<or> c = CHR ''>'' \<or> c = CHR ''~'' then Inl (c, snd (skipWhitespace cs))
          else if c = CHR '','' \<or> c = CHR '')'' then Inr (c # cs)
          else if \<not> fst (skipWhitespace s) then Inr (c # cs)
          else Inl (CHR '' '', c # cs))"

definition combine :: "'r selectors \<Rightarrow> char \<Rightarrow> oneSelector \<Rightarrow> oneSelector \<Rightarrow> oneSelector" where
  "combine sel combinator result c =
     result\<lparr>Specificity := add (Specificity result) (Specificity c),
            match := (if combinator = CHR '' ''
                        then Some (descendantSelector sel (match result) (match c))
                      else if combinator = CHR ''>''
                        then Some (childSelector sel (match result) (match c))
                      else if combinator = CHR ''+''
                        then Some (siblingSelector sel (match result) (match c) True)
                      else if combinator = CHR ''~''
                        then Some (siblingSelector sel (match result) (match c) False)
                      else match result)\<rparr>"


lemma parseTypeSelector_shorter:
  "parseTypeSelector sel s = Inr (r, s') \<Longrightarrow> length s' < length s"
  by (auto simp: parseTypeSelector_def split: sum.splits dest: parseIdentifier_shorter)

lemma parseIDSelector_shorter:
  "parseIDSelector sel s = Inr (r, s') \<Longrightarrow> length s' < length s"
  by (cases s) (auto simp: parseIDSelector_def split: sum.splits if_splits
      dest!: parseName_shorter)

lemma parseClassSelector_shorter:
  "parseClassSelector sel s = Inr (r, s') \<Longrightarrow> length s' < length s"
  by (cases s) (auto simp: parseClassSelector_def split: sum.splits if_splits
      dest!: parseIdentifier_shorter)

lemma closeAttribute_shorter: "closeAttribute s = Inr s' \<Longrightarrow> length s' < length s"
proof (cases "snd (skipWhitespace s)")
  case Nil
  then show "closeAttribute s = Inr s' \<Longrightarrow> ?thesis" by (simp add: closeAttribute_def)
next
  case (Cons c cs)
  then show "closeAttribute s = Inr s' \<Longrightarrow> ?thesis"
    using skipWhitespace_length_Cons [OF Cons]
    by (auto simp: closeAttribute_def split: if_splits)
qed

lemma parseAttributeValue_length:
  assumes "parseAttributeValue sel key op s = Inr (m, s')"
  shows "length s' \<le> length s"
proof -
  from assms obtain s1 where s1: "closeAttribute s1 = Inr s'" and l: "length s1 \<le> length s"
    by (cases s)
      (auto simp: parseAttributeValue_def split: if_splits sum.splits
        dest: parseRegex_length parseString_shorter parseIdentifier_shorter less_imp_le)
  from closeAttribute_shorter [OF s1] l show ?thesis by simp
qed

lemma parseAttributeMatcher_shorter:
  assumes "parseAttributeMatcher sel s = Inr (m, s')"
  shows "length s' < length s"
proof -
  from assms obtain cs where s: "s = CHR ''['' # cs"
    by (cases s) (auto simp: parseAttributeMatcher_def split: if_splits)
  from assms s obtain key s1
    where k: "parseIdentifier (snd (skipWhitespace cs)) = Inr (key, s1)"
    by (auto simp: parseAttributeMatcher_def split: sum.splits)
  have l1: "length s1 < length cs"
    using parseIdentifier_shorter [OF k] skipWhitespace_length [of cs] by linarith
  show ?thesis
  proof (cases "snd (skipWhitespace s1)")
    case Nil
    with assms s k show ?thesis by (simp add: parseAttributeMatcher_def)
  next
    case (Cons c2 cs2)
    have l2: "length cs2 < length s1" using Cons by (rule skipWhitespace_length_Cons)
    have v: "length s' \<le> length cs2"
      if "parseAttributeValue sel key op (snd (skipWhitespace t)) = Inr (m, s')"
        and "length t \<le> length cs2" for op t
      using parseAttributeValue_length [OF that(1)] skipWhitespace_length [of t] that(2)
      by linarith
    have "length s' \<le> length cs2"
      using assms s k Cons v [of _ cs2] v [of _ "tl cs2"]
      by (auto simp: parseAttributeMatcher_def split: if_splits)
    with l1 l2 s show ?thesis by simp
  qed
qed

lemma parseAttributeSelector_shorter:
  "parseAttributeSelector sel s = Inr (r, s') \<Longrightarrow> length s' < length s"
  by (auto simp: parseAttributeSelector_def split: sum.splits dest: parseAttributeMatcher_shorter)

lemma nextCombinator_length:
  "nextCombinator s = Inl (c, s1) \<Longrightarrow> length s1 \<le> length s"
  "nextCombinator s = Inr s' \<Longrightarrow> length s' \<le> length s"
proof -
  have a: "length (snd (skipWhitespace s)) \<le> length s" by (rule skipWhitespace_length)
  have b: "snd (skipWhitespace s) = x # xs \<Longrightarrow> length (snd (skipWhitespace xs)) \<le> length s"
    for x xs
    using skipWhitespace_length_Cons [of s x xs] skipWhitespace_length [of xs] by linarith
  show "nextCombinator s = Inl (c, s1) \<Longrightarrow> length s1 \<le> length s"
    using a b by (auto simp: nextCombinator_def split: list.splits if_splits)
  show "nextCombinator s = Inr s' \<Longrightarrow> length s' \<le> length s"
    using a by (auto simp: nextCombinator_def split: list.splits if_splits)
qed

lemma consumeParenthesis_length [simp]: "length (snd (consumeParenthesis s)) \<le> length s"
  by (cases s) (auto simp: consumeParenthesis_def intro: le_SucI)

lemma parsePseudoclass_contains_length:
  assumes "parsePseudoclass_contains sel name s = Inr (r, s')"
  shows "length s' \<le> length s"
proof -
  from assms obtain val s1 c cs
    where p: "snd (consumeParenthesis s) = c # cs"
      and v: "(if c = CHR 0x27 \<or> c = CHR 0x22 then parseString (c # cs)
               else parseIdentifier (c # cs)) = Inr (val, s1)"
      and e: "s' = snd (consumeClosingParenthesis (snd (skipWhitespace s1)))"
    unfolding parsePseudoclass_contains_def
    by (auto split: if_splits list.splits sum.splits prod.splits)
  have "length s1 \<le> length (c # cs)"
    using v parseString_shorter [of "c # cs" val s1] parseIdentifier_shorter [of "c # cs" val s1]
    by (auto split: if_splits)
  also have "\<dots> \<le> length s" unfolding p [symmetric] by simp
  finally have "length s1 \<le> length s" .
  moreover have "length s' \<le> length (snd (skipWhitespace s1))" unfolding e by simp
  moreover have "length (snd (skipWhitespace s1)) \<le> length s1" by simp
  ultimately show ?thesis by linarith
qed

lemma parsePseudoclass_matches_length:
  assumes "parsePseudoclass_matches sel name s = Inr (r, s')"
  shows "length s' \<le> length s"
proof -
  from assms obtain rx s1
    where v: "parseRegex sel (snd (consumeParenthesis s)) = Inr (rx, s1)"
      and e: "s' = snd (consumeClosingParenthesis s1)"
    unfolding parsePseudoclass_matches_def
    by (auto split: if_splits list.splits sum.splits prod.splits)
  have "length s1 \<le> length (snd (consumeParenthesis s))" using v by (rule parseRegex_length)
  moreover have "length (snd (consumeParenthesis s)) \<le> length s" by simp
  moreover have "length s' \<le> length s1" unfolding e by simp
  ultimately show ?thesis by linarith
qed

lemma parsePseudoclass_nth_length:
  assumes "parsePseudoclass_nth sel name s = Inr (r, s')"
  shows "length s' \<le> length s"
proof -
  from assms obtain ab s1
    where v: "parseNth (snd (consumeParenthesis s)) = Inr (ab, s1)"
      and e: "s' = snd (consumeClosingParenthesis s1)"
    unfolding parsePseudoclass_nth_def
    by (auto split: if_splits list.splits sum.splits prod.splits)
  have "length s1 \<le> length (snd (consumeParenthesis s))" using v by (rule parseNth_length)
  moreover have "length (snd (consumeParenthesis s)) \<le> length s" by simp
  moreover have "length s' \<le> length s1" unfolding e by simp
  ultimately show ?thesis by linarith
qed

lemma parsePseudoclassSelector_cases_length:
  assumes "parsePseudoclassSelector_cases sel name s = Inr (r, s')"
  shows "length s' \<le> length s"
proof (cases "name = ''contains'' \<or> name = ''containsown''")
  case True
  from assms have "parsePseudoclass_contains sel name s = Inr (r, s')"
    unfolding parsePseudoclassSelector_cases_def if_P [OF True] .
  then show ?thesis by (rule parsePseudoclass_contains_length)
next
  case c: False
  show ?thesis
  proof (cases "name = ''matches'' \<or> name = ''matchesown''")
    case True
    from assms have "parsePseudoclass_matches sel name s = Inr (r, s')"
      unfolding parsePseudoclassSelector_cases_def if_not_P [OF c] if_P [OF True] .
    then show ?thesis by (rule parsePseudoclass_matches_length)
  next
    case m: False
    show ?thesis
    proof (cases "name = ''nth-child'' \<or> name = ''nth-last-child'' \<or> name = ''nth-of-type''
              \<or> name = ''nth-last-of-type''")
      case True
      from assms have "parsePseudoclass_nth sel name s = Inr (r, s')"
        unfolding parsePseudoclassSelector_cases_def if_not_P [OF c] if_not_P [OF m]
          if_P [OF True] .
      then show ?thesis by (rule parsePseudoclass_nth_length)
    next
      case n: False
      from assms have "(case parsePseudoclass_plain sel name of
          Inl err \<Rightarrow> Inl err | Inr out \<Rightarrow> Inr (out, s)) = Inr (r, s')"
        unfolding parsePseudoclassSelector_cases_def if_not_P [OF c] if_not_P [OF m]
          if_not_P [OF n] .
      then have "s' = s" by (cases "parsePseudoclass_plain sel name") simp_all
      then show ?thesis by simp
    qed
  qed
qed


text \<open>
  The parsing functions call one another; a loop goes on from the text that the
  function it called has left. Each call that succeeds consumes some text. The
  definition asks for this where a loop goes on after a call into the recursion (the
  conditions on \<^verbatim>\<open>length\<close>), so that it terminates by the length of the text; the
  conditions always hold, as \<open>parse_shorter\<close> proves below, and the branch
  \<open>unreachable\<close> is never taken.
\<close>

definition unreachable :: "'a result" where
  "unreachable = Inl (RuntimePanic ''unreachable'')"

function parsePseudoclassSelector :: "'r selectors \<Rightarrow> string \<Rightarrow> oneSelector result"
  and parseSimpleSelectorSequence_loop :: "'r selectors \<Rightarrow> oneSelector \<Rightarrow> string \<Rightarrow> oneSelector result"
  and parseSimpleSelectorSequence :: "'r selectors \<Rightarrow> string \<Rightarrow> oneSelector result"
  and parseSelector_loop :: "'r selectors \<Rightarrow> oneSelector \<Rightarrow> string \<Rightarrow> oneSelector result"
  and parseSelector :: "'r selectors \<Rightarrow> string \<Rightarrow> oneSelector result"
  and parseSelectorGroup_loop :: "'r selectors \<Rightarrow> Selector \<Rightarrow> string \<Rightarrow> Selector result"
  and parseSelectorGroup :: "'r selectors \<Rightarrow> string \<Rightarrow> Selector result"
where
  "parsePseudoclassSelector sel s =
     (case s of
        [] \<Rightarrow> Inl (Errorf ''expected pseudoclass selector (:pseudoclass), found EOF instead'' [])
      | c # cs \<Rightarrow>
          if c \<noteq> CHR '':''
            then Inl (Errorf ''expected attribute selector (:pseudoclass), found '%c' instead''
                        [ArgChar c])
          else (case cs of
                  [] \<Rightarrow> Inl (RuntimePanic ''index out of range'')
                | c1 # cs1 \<Rightarrow>
                    (case parseIdentifier (if c1 = CHR '':'' then cs1 else cs) of
                       Inl err \<Rightarrow> Inl err
                     | Inr (name, s1) \<Rightarrow>
                         if isRelativeName (toLowerASCII name) then
                           (if \<not> fst (consumeParenthesis s1) then Inl errExpectedParenthesis
                            else case parseSelectorGroup sel (snd (consumeParenthesis s1)) of
                              Inl parseErr \<Rightarrow> Inl parseErr
                            | Inr (grp, s2) \<Rightarrow>
                                if \<not> fst (consumeClosingParenthesis s2)
                                  then Inl errExpectedClosingParenthesis
                                else Inr (relativeSelector sel (toLowerASCII name) grp,
                                          snd (consumeClosingParenthesis s2)))
                         else parsePseudoclassSelector_cases sel (toLowerASCII name) s1)))"
| "parseSimpleSelectorSequence_loop sel result s =
     (case s of
        [] \<Rightarrow> Inr (result, [])
      | c # cs \<Rightarrow>
          if c = CHR ''#'' then
            (case parseIDSelector sel s of
               Inl err \<Rightarrow> Inl err
             | Inr (ns, s') \<Rightarrow>
                 (case addClause sel result ns of
                    Inl err \<Rightarrow> Inl err
                  | Inr result' \<Rightarrow> parseSimpleSelectorSequence_loop sel result' s'))
          else if c = CHR ''.'' then
            (case parseClassSelector sel s of
               Inl err \<Rightarrow> Inl err
             | Inr (ns, s') \<Rightarrow>
                 (case addClause sel result ns of
                    Inl err \<Rightarrow> Inl err
                  | Inr result' \<Rightarrow> parseSimpleSelectorSequence_loop sel result' s'))
          else if c = CHR ''['' then
            (case parseAttributeSelector sel s of
               Inl err \<Rightarrow> Inl err
             | Inr (ns, s') \<Rightarrow>
                 (case addClause sel result ns of
                    Inl err \<Rightarrow> Inl err
                  | Inr result' \<Rightarrow> parseSimpleSelectorSequence_loop sel result' s'))
          else if c = CHR '':'' then
            (case parsePseudoclassSelector sel s of
               Inl err \<Rightarrow> Inl err
             | Inr (ns, s') \<Rightarrow>
                 (case addClause sel result ns of
                    Inl err \<Rightarrow> Inl err
                  | Inr result' \<Rightarrow>
                      if length s' < length s
                        then parseSimpleSelectorSequence_loop sel result' s'
                      else unreachable))
          else Inr (result, s))"
| "parseSimpleSelectorSequence sel s =
     (case s of
        [] \<Rightarrow> Inl (ErrorsNew ''expected selector, found EOF instead'')
      | c # cs \<Rightarrow>
          if c = CHR ''*''
            then defaultMatch (parseSimpleSelectorSequence_loop sel oneSelector_zero cs)
          else if c = CHR ''#'' \<or> c = CHR ''.'' \<or> c = CHR ''['' \<or> c = CHR '':''
            then defaultMatch (parseSimpleSelectorSequence_loop sel oneSelector_zero s)
          else (case parseTypeSelector sel s of
                  Inl err \<Rightarrow> Inl err
                | Inr (r, s') \<Rightarrow> defaultMatch (parseSimpleSelectorSequence_loop sel r s')))"
| "parseSelector_loop sel result s =
     (case nextCombinator s of
        Inr s' \<Rightarrow> Inr (result, s')
      | Inl (combinator, s1) \<Rightarrow>
          (case parseSimpleSelectorSequence sel s1 of
             Inl err \<Rightarrow> Inl err
           | Inr (c, s2) \<Rightarrow>
               if length s2 < length s
                 then parseSelector_loop sel (combine sel combinator result c) s2
               else unreachable))"
| "parseSelector sel s =
     (case parseSimpleSelectorSequence sel (snd (skipWhitespace s)) of
        Inl err \<Rightarrow> Inl err
      | Inr (result, s1) \<Rightarrow>
          if length s1 < length s then parseSelector_loop sel result s1 else unreachable)"
| "parseSelectorGroup_loop sel result s =
     (case s of
        [] \<Rightarrow> Inr (result, [])
      | c # cs \<Rightarrow>
          if c \<noteq> CHR '','' then Inr (result, s)
          else (case parseSelector sel cs of
                  Inl err \<Rightarrow> Inl err
                | Inr (c', s') \<Rightarrow>
                    if length s' < length s
                      then parseSelectorGroup_loop sel (result @ [c']) s'
                    else unreachable))"
| "parseSelectorGroup sel s =
     (case parseSelector sel s of
        Inl err \<Rightarrow> Inl err
      | Inr (current, s') \<Rightarrow>
          if length s' < length s then parseSelectorGroup_loop sel [current] s'
          else unreachable)"
  by pat_completeness auto
termination
proof (relation "measure (\<lambda>x. case x of
    Inl a \<Rightarrow> (case a of
        Inl (sel, s) \<Rightarrow> 8 * length s + 1
      | Inr b \<Rightarrow> (case b of
            Inl (sel, r, s) \<Rightarrow> 8 * length s + 2
          | Inr (sel, s) \<Rightarrow> 8 * length s + 3))
  | Inr a \<Rightarrow> (case a of
        Inl b \<Rightarrow> (case b of
            Inl (sel, r, s) \<Rightarrow> 8 * length s + 4
          | Inr (sel, s) \<Rightarrow> 8 * length s + 5)
      | Inr b \<Rightarrow> (case b of
            Inl (sel, r, s) \<Rightarrow> 8 * length s + 6
          | Inr (sel, s) \<Rightarrow> 8 * length s + 7)))", goal_cases)
  case 1
  show ?case by simp
next
  case (2 sel s c cs c1 cs1 b name s1)
  have "length s1 < length (if c1 = CHR '':'' then cs1 else cs)"
    using 2 parseIdentifier_shorter [of "if c1 = CHR '':'' then cs1 else cs" name s1] by simp
  moreover have "length (snd (consumeParenthesis s1)) < length s1"
    using 2 by (intro consumeParenthesis_shorter) simp
  ultimately show ?case using 2 by (auto split: if_splits)
next
  case 3
  then show ?case by (auto dest!: parseIDSelector_shorter)
next
  case 4
  then show ?case by (auto dest!: parseClassSelector_shorter)
next
  case 5
  then show ?case by (auto dest!: parseAttributeSelector_shorter)
next
  case 6
  then show ?case by auto
next
  case 7
  then show ?case by auto
next
  case 8
  then show ?case by auto
next
  case 9
  then show ?case by auto
next
  case 10
  then show ?case by (auto dest!: parseTypeSelector_shorter)
next
  case 11
  then show ?case by (auto dest!: nextCombinator_length(1))
next
  case 12
  then show ?case by auto
next
  case (13 sel s)
  show ?case by (simp, insert skipWhitespace_length [of s], linarith)
next
  case 14
  then show ?case by auto
next
  case 15
  then show ?case by auto
next
  case 16
  then show ?case by auto
next
  case 17
  then show ?case by auto
next
  case 18
  then show ?case by auto
qed

declare parsePseudoclassSelector.simps [simp del]
declare parseSimpleSelectorSequence_loop.simps [simp del]
declare parseSimpleSelectorSequence.simps [simp del]
declare parseSelector_loop.simps [simp del]
declare parseSelector.simps [simp del]
declare parseSelectorGroup_loop.simps [simp del]
declare parseSelectorGroup.simps [simp del]


text \<open>
  Every parsing function of the recursion leaves less text than it was given (a loop:
  no more), so the conditions on \<^verbatim>\<open>length\<close> in the definition always hold.
\<close>

lemmas parse_induct =
  parsePseudoclassSelector_parseSimpleSelectorSequence_loop_parseSimpleSelectorSequence_parseSelector_loop_parseSelector_parseSelectorGroup_loop_parseSelectorGroup.induct

lemma defaultMatch_Inr:
  "defaultMatch x = Inr (r, s') \<Longrightarrow> \<exists>r0. x = Inr (r0, s')"
  by (cases x) (auto simp: defaultMatch_def)

lemma parse_shorter:
  "parsePseudoclassSelector sel s = Inr (r1, s1) \<Longrightarrow> length s1 < length s"
  "parseSimpleSelectorSequence_loop sel result s = Inr (r2, s2) \<Longrightarrow>
     length s2 \<le> length s \<and>
     (s \<noteq> [] \<and> (hd s = CHR ''#'' \<or> hd s = CHR ''.'' \<or> hd s = CHR ''['' \<or> hd s = CHR '':'')
        \<longrightarrow> length s2 < length s)"
  "parseSimpleSelectorSequence sel s = Inr (r3, s3) \<Longrightarrow> length s3 < length s"
  "parseSelector_loop sel result' s = Inr (r4, s4) \<Longrightarrow> length s4 \<le> length s"
  "parseSelector sel s = Inr (r5, s5) \<Longrightarrow> length s5 < length s"
  "parseSelectorGroup_loop sel grp s = Inr (r6, s6) \<Longrightarrow> length s6 \<le> length s"
  "parseSelectorGroup sel s = Inr (r7, s7) \<Longrightarrow> length s7 < length s"
proof (induction sel s and sel result s and sel s and sel result' s and sel s and sel grp s and sel s
    arbitrary: r1 s1 and r2 s2 and r3 s3 and r4 s4 and r5 s5 and r6 s6 and r7 s7
    rule: parse_induct)
  case (1 sel s)
  from 1(2) obtain c1 cs1 name s' where s: "s = CHR '':'' # c1 # cs1"
    and id: "parseIdentifier (if c1 = CHR '':'' then cs1 else c1 # cs1) = Inr (name, s')"
    by (subst (asm) parsePseudoclassSelector.simps)
      (auto split: list.splits sum.splits if_splits)
  have l: "length s' < length s" using parseIdentifier_shorter [OF id] s by (auto split: if_splits)
  show ?case
  proof (cases "isRelativeName (toLowerASCII name)")
    case False
    with 1(2) s id have "parsePseudoclassSelector_cases sel (toLowerASCII name) s' = Inr (r1, s1)"
      by (subst (asm) parsePseudoclassSelector.simps) simp
    from parsePseudoclassSelector_cases_length [OF this] l show ?thesis by simp
  next
    case True
    with 1(2) s id obtain g s2 where p: "fst (consumeParenthesis s')"
      and g: "parseSelectorGroup sel (snd (consumeParenthesis s')) = Inr (g, s2)"
      and e: "s1 = snd (consumeClosingParenthesis s2)"
      by (subst (asm) parsePseudoclassSelector.simps)
        (auto split: sum.splits if_splits)
    have "length s2 < length (snd (consumeParenthesis s'))"
      using 1(1) [OF s _ _ id refl True _ g] p by simp
    moreover have "length (snd (consumeParenthesis s')) \<le> length s'" by simp
    moreover have "length s1 \<le> length s2" unfolding e by simp
    ultimately show ?thesis using l by linarith
  qed
next
  case (2 sel result s)
  show ?case
  proof (cases s)
    case Nil
    with 2(6) show ?thesis by (subst (asm) parseSimpleSelectorSequence_loop.simps) simp
  next
    case (Cons c cs)
    consider (id) "c = CHR ''#''" | (cl) "c \<noteq> CHR ''#''" "c = CHR ''.''"
      | (at) "c \<noteq> CHR ''#''" "c \<noteq> CHR ''.''" "c = CHR ''[''"
      | (ps) "c \<noteq> CHR ''#''" "c \<noteq> CHR ''.''" "c \<noteq> CHR ''[''" "c = CHR '':''"
      | (no) "c \<noteq> CHR ''#''" "c \<noteq> CHR ''.''" "c \<noteq> CHR ''[''" "c \<noteq> CHR '':''"
      by auto
    then show ?thesis
    proof cases
      case id
      with 2(6) Cons obtain ns s' res' where a: "parseIDSelector sel s = Inr (ns, s')"
        and b: "addClause sel result ns = Inr res'"
        and c: "parseSimpleSelectorSequence_loop sel res' s' = Inr (r2, s2)"
        by (subst (asm) parseSimpleSelectorSequence_loop.simps) (auto split: sum.splits)
      from 2(1) [OF Cons id a refl b c] parseIDSelector_shorter [OF a] show ?thesis by simp
    next
      case cl
      with 2(6) Cons obtain ns s' res' where a: "parseClassSelector sel s = Inr (ns, s')"
        and b: "addClause sel result ns = Inr res'"
        and c: "parseSimpleSelectorSequence_loop sel res' s' = Inr (r2, s2)"
        by (subst (asm) parseSimpleSelectorSequence_loop.simps) (auto split: sum.splits)
      from 2(2) [OF Cons cl a refl b c] parseClassSelector_shorter [OF a] show ?thesis by simp
    next
      case at
      with 2(6) Cons obtain ns s' res' where a: "parseAttributeSelector sel s = Inr (ns, s')"
        and b: "addClause sel result ns = Inr res'"
        and c: "parseSimpleSelectorSequence_loop sel res' s' = Inr (r2, s2)"
        by (subst (asm) parseSimpleSelectorSequence_loop.simps) (auto split: sum.splits)
      from 2(3) [OF Cons at a refl b c] parseAttributeSelector_shorter [OF a] show ?thesis by simp
    next
      case ps
      with 2(6) Cons obtain ns s' res' where a: "parsePseudoclassSelector sel s = Inr (ns, s')"
        and b: "addClause sel result ns = Inr res'"
        and g: "length s' < length s"
        and c: "parseSimpleSelectorSequence_loop sel res' s' = Inr (r2, s2)"
        by (subst (asm) parseSimpleSelectorSequence_loop.simps)
          (auto simp: unreachable_def split: sum.splits if_splits)
      from 2(5) [OF Cons ps a refl b g c] g show ?thesis by simp
    next
      case no
      with 2(6) Cons show ?thesis
        by (subst (asm) parseSimpleSelectorSequence_loop.simps) auto
    qed
  qed
next
  case (3 sel s)
  show ?case
  proof (cases s)
    case Nil
    with 3(4) show ?thesis by (subst (asm) parseSimpleSelectorSequence.simps) simp
  next
    case (Cons c cs)
    consider (star) "c = CHR ''*''"
      | (clause) "c \<noteq> CHR ''*''" "c = CHR ''#'' \<or> c = CHR ''.'' \<or> c = CHR ''['' \<or> c = CHR '':''"
      | (type) "c \<noteq> CHR ''*''" "\<not> (c = CHR ''#'' \<or> c = CHR ''.'' \<or> c = CHR ''['' \<or> c = CHR '':'')"
      by auto
    then show ?thesis
    proof cases
      case star
      with 3(4) Cons obtain r0
        where "parseSimpleSelectorSequence_loop sel oneSelector_zero cs = Inr (r0, s3)"
        by (subst (asm) parseSimpleSelectorSequence.simps) (auto dest: defaultMatch_Inr)
      from 3(1) [OF Cons star this] Cons show ?thesis by simp
    next
      case clause
      with 3(4) Cons obtain r0
        where l: "parseSimpleSelectorSequence_loop sel oneSelector_zero s = Inr (r0, s3)"
        by (subst (asm) parseSimpleSelectorSequence.simps) (auto dest: defaultMatch_Inr)
      from 3(2) [OF Cons clause l] Cons clause(2) show ?thesis by simp
    next
      case type
      with 3(4) Cons obtain r s' r0 where a: "parseTypeSelector sel s = Inr (r, s')"
        and l: "parseSimpleSelectorSequence_loop sel r s' = Inr (r0, s3)"
        by (subst (asm) parseSimpleSelectorSequence.simps)
          (auto dest: defaultMatch_Inr split: sum.splits)
      from 3(3) [OF Cons type a refl l] parseTypeSelector_shorter [OF a] show ?thesis by simp
    qed
  qed
next
  case (4 sel result' s)
  show ?case
  proof (cases "nextCombinator s")
    case (Inr t)
    with 4(3) have "s4 = t" by (subst (asm) parseSelector_loop.simps) simp
    with nextCombinator_length(2) [OF Inr] show ?thesis by simp
  next
    case (Inl a)
    obtain comb t where a: "a = (comb, t)" by (cases a)
    with 4(3) Inl obtain c s2 where p: "parseSimpleSelectorSequence sel t = Inr (c, s2)"
      and g: "length s2 < length s"
      and l: "parseSelector_loop sel (combine sel comb result' c) s2 = Inr (r4, s4)"
      by (subst (asm) parseSelector_loop.simps)
        (auto simp: unreachable_def split: sum.splits if_splits)
    from 4(2) [OF Inl a [symmetric] p refl g l] g show ?thesis by simp
  qed
next
  case (5 sel s)
  from 5(3) obtain result s1 where p: "parseSimpleSelectorSequence sel (snd (skipWhitespace s)) = Inr (result, s1)"
    and g: "length s1 < length s"
    and l: "parseSelector_loop sel result s1 = Inr (r5, s5)"
    by (subst (asm) parseSelector.simps)
      (auto simp: unreachable_def split: sum.splits if_splits)
  from 5(2) [OF p refl g l] g show ?case by simp
next
  case (6 sel grp s)
  show ?case
  proof (cases s)
    case Nil
    with 6(3) show ?thesis by (subst (asm) parseSelectorGroup_loop.simps) simp
  next
    case (Cons c cs)
    show ?thesis
    proof (cases "c = CHR '',''")
      case False
      with 6(3) Cons show ?thesis by (subst (asm) parseSelectorGroup_loop.simps) simp
    next
      case True
      with 6(3) Cons obtain c' s' where p: "parseSelector sel cs = Inr (c', s')"
        and g: "length s' < length s"
        and l: "parseSelectorGroup_loop sel (grp @ [c']) s' = Inr (r6, s6)"
        by (subst (asm) parseSelectorGroup_loop.simps)
          (auto simp: unreachable_def split: sum.splits if_splits)
      from 6(2) [OF Cons _ p refl g l] True g show ?thesis by simp
    qed
  qed
next
  case (7 sel s)
  from 7(3) obtain current s' where p: "parseSelector sel s = Inr (current, s')"
    and g: "length s' < length s"
    and l: "parseSelectorGroup_loop sel [current] s' = Inr (r7, s7)"
    by (subst (asm) parseSelectorGroup.simps)
      (auto simp: unreachable_def split: sum.splits if_splits)
  from 7(2) [OF p refl g l] g show ?case by simp
qed

text \<open>The functions as the source has them, without the conditions.\<close>

lemma parseSimpleSelectorSequence_loop_pseudo:
  "parseSimpleSelectorSequence_loop sel result (CHR '':'' # cs) =
     (case parsePseudoclassSelector sel (CHR '':'' # cs) of
        Inl err \<Rightarrow> Inl err
      | Inr (ns, s') \<Rightarrow>
          (case addClause sel result ns of
             Inl err \<Rightarrow> Inl err
           | Inr result' \<Rightarrow> parseSimpleSelectorSequence_loop sel result' s'))"
  by (subst parseSimpleSelectorSequence_loop.simps)
    (auto split: sum.splits dest: parse_shorter(1))

lemma parseSelector_loop_eq:
  "parseSelector_loop sel result s =
     (case nextCombinator s of
        Inr s' \<Rightarrow> Inr (result, s')
      | Inl (combinator, s1) \<Rightarrow>
          (case parseSimpleSelectorSequence sel s1 of
             Inl err \<Rightarrow> Inl err
           | Inr (c, s2) \<Rightarrow> parseSelector_loop sel (combine sel combinator result c) s2))"
proof -
  have "length s2 < length s"
    if "nextCombinator s = Inl (combinator, s1)"
      and "parseSimpleSelectorSequence sel s1 = Inr (c, s2)" for combinator s1 c s2
    using nextCombinator_length(1) [OF that(1)] parse_shorter(3) [OF that(2)] by simp
  then show ?thesis
    by (subst parseSelector_loop.simps) (auto split: sum.splits)
qed

lemma parseSelector_eq:
  "parseSelector sel s =
     (case parseSimpleSelectorSequence sel (snd (skipWhitespace s)) of
        Inl err \<Rightarrow> Inl err
      | Inr (result, s1) \<Rightarrow> parseSelector_loop sel result s1)"
proof -
  have "length s1 < length s"
    if "parseSimpleSelectorSequence sel (snd (skipWhitespace s)) = Inr (result, s1)" for result s1
    using parse_shorter(3) [OF that] skipWhitespace_length [of s] by linarith
  then show ?thesis
    by (subst parseSelector.simps) (auto split: sum.splits)
qed

lemma parseSelectorGroup_loop_eq:
  "parseSelectorGroup_loop sel result s =
     (case s of
        [] \<Rightarrow> Inr (result, [])
      | c # cs \<Rightarrow>
          if c \<noteq> CHR '','' then Inr (result, s)
          else (case parseSelector sel cs of
                  Inl err \<Rightarrow> Inl err
                | Inr (c', s') \<Rightarrow> parseSelectorGroup_loop sel (result @ [c']) s'))"
  by (subst parseSelectorGroup_loop.simps)
    (auto split: sum.splits list.splits dest: parse_shorter(5))

lemma parseSelectorGroup_eq:
  "parseSelectorGroup sel s =
     (case parseSelector sel s of
        Inl err \<Rightarrow> Inl err
      | Inr (current, s') \<Rightarrow> parseSelectorGroup_loop sel [current] s')"
  by (subst parseSelectorGroup.simps)
    (auto split: sum.splits dest: parse_shorter(5))


section \<open>Compiling a selector\<close>

text \<open>
  Modelled from the spec: the \<^verbatim>\<open>Match\<close> of a parsed group, which \<^verbatim>\<open>Compile\<close> returns as
  the selector. It is not among the sources for the groups of this parser; the spec
  has a group match when any of its chains matches, as \<^verbatim>\<open>selectorGroup.Match\<close> does for
  the groups of the other parser. An alternative whose \<^verbatim>\<open>match\<close> is \<^verbatim>\<open>nil\<close>, which the
  parser never builds, matches nothing here.
\<close>

fun Selector_Match :: "Selector \<Rightarrow> Matcher" where
  "Selector_Match [] n = False"
| "Selector_Match (sel # sels) n =
     (if (case match sel of None \<Rightarrow> False | Some m \<Rightarrow> m n) then True
      else Selector_Match sels n)"

definition Compile :: "'r selectors \<Rightarrow> string \<Rightarrow> error + Matcher" where
  "Compile sel s =
     (case parseSelectorGroup sel s of
        Inl err \<Rightarrow> Inl err
      | Inr (compiled, rest) \<Rightarrow>
          if rest \<noteq> []
            then Inl (Errorf ''parsing %q: %d bytes left over'' [ArgString s, ArgInt (length rest)])
          else Inr (Selector_Match compiled))"

text \<open>\<^verbatim>\<open>compoundSelector.Match\<close>, of the selectors that keep their sub-matchers.\<close>

fun compoundSelector_Match_loop :: "Matcher list \<Rightarrow> Node \<Rightarrow> bool" where
  "compoundSelector_Match_loop [] n = True"
| "compoundSelector_Match_loop (sel # sels) n =
     (if \<not> sel n then False else compoundSelector_Match_loop sels n)"

definition compoundSelector_Match :: "Matcher list \<Rightarrow> Node \<Rightarrow> bool" where
  "compoundSelector_Match selectors n =
     (if length selectors = 0 then Type n = ElementNode
      else compoundSelector_Match_loop selectors n)"

section \<open>The clauses of a compound\<close>

text \<open>
  The loop of \<^verbatim>\<open>parseSimpleSelectorSequence\<close> goes on while the text starts with \<^verbatim>\<open>#\<close>,
  \<^verbatim>\<open>.\<close>, \<^verbatim>\<open>[\<close> or \<^verbatim>\<open>:\<close>, and its \<^verbatim>\<open>switch\<close> calls the parser of the clause that the
  character announces.
\<close>

definition startsClause :: "string \<Rightarrow> bool" where
  "startsClause s \<longleftrightarrow>
     (case s of
        [] \<Rightarrow> False
      | c # cs \<Rightarrow> c = CHR ''#'' \<or> c = CHR ''.'' \<or> c = CHR ''['' \<or> c = CHR '':'')"

definition parseClause :: "'r selectors \<Rightarrow> string \<Rightarrow> oneSelector result" where
  "parseClause sel s =
     (case s of
        [] \<Rightarrow> parsePseudoclassSelector sel s
      | c # cs \<Rightarrow>
          if c = CHR ''#'' then parseIDSelector sel s
          else if c = CHR ''.'' then parseClassSelector sel s
          else if c = CHR ''['' then parseAttributeSelector sel s
          else parsePseudoclassSelector sel s)"

lemma parseClause_shorter: "parseClause sel s = Inr (ns, s') \<Longrightarrow> length s' < length s"
  by (cases s)
    (auto simp: parseClause_def split: if_splits
      dest: parseIDSelector_shorter parseClassSelector_shorter parseAttributeSelector_shorter
        parse_shorter(1))

text \<open>The clauses that the loop reads from a text, in their order.\<close>

function parsedClauses :: "'r selectors \<Rightarrow> string \<Rightarrow> oneSelector list" where
  "parsedClauses sel s =
     (if startsClause s then
        (case parseClause sel s of
           Inl err \<Rightarrow> []
         | Inr (ns, s') \<Rightarrow> ns # parsedClauses sel s')
      else [])"
  by pat_completeness auto
termination
  by (relation "measure (\<lambda>(sel, s). length s)") (auto dest: parseClause_shorter)

declare parsedClauses.simps [simp del]

text \<open>
  A clause either installs a matcher and names no pseudo-element, or is a
  pseudo-element: no matcher, and one of the eleven names.
\<close>

definition clauseShape :: "oneSelector \<Rightarrow> bool" where
  "clauseShape ns \<longleftrightarrow>
     (if match ns = None then isPseudoElementName (PseudoElement ns) else PseudoElement ns = [])"

section \<open>The greatest specificity\<close>

text \<open>
  The order of the specification on specificities: lexicographic, the id component
  first. The greatest of a list is a member that none of the list exceeds.
\<close>

definition lexLess :: "Specificity \<Rightarrow> Specificity \<Rightarrow> bool" where
  "lexLess s t \<longleftrightarrow>
     (case s of (a, b, c) \<Rightarrow> case t of (a', b', c') \<Rightarrow>
        a < a' \<or> a = a' \<and> (b < b' \<or> b = b' \<and> c < c'))"

definition greatestOf :: "Specificity \<Rightarrow> Specificity list \<Rightarrow> bool" where
  "greatestOf m xs \<longleftrightarrow> m \<in> set xs \<and> list_all (\<lambda>x. \<not> lexLess m x) xs"


section \<open>Properties of the attribute matchers\<close>

lemma attributeNotEqualMatch_loop_iff:
  "attributeNotEqualMatch_loop as key val \<longleftrightarrow> (\<forall>a \<in> set as. \<not> (Key a = key \<and> Val a = val))"
  by (induction as) auto

text \<open>
  Claim C7. On an element node the \<^verbatim>\<open>!=\<close> matcher holds exactly when no attribute of
  the node has the given key together with the given value, so it holds when the node
  has no attribute of that key at all; on a node of any other type it fails.
\<close>

theorem attributeNotEqualMatch_correct:
  "(attributeNotEqualMatch key val n \<longleftrightarrow>
      Type n = ElementNode \<and> (\<forall>a \<in> set (Attr n). \<not> (Key a = key \<and> Val a = val))) \<and>
   (Type n = ElementNode \<and> key \<notin> Key ` set (Attr n) \<longrightarrow> attributeNotEqualMatch key val n) \<and>
   (Type n \<noteq> ElementNode \<longrightarrow> \<not> attributeNotEqualMatch key val n)"
  by (auto simp: attributeNotEqualMatch_def attributeNotEqualMatch_loop_iff)

theorem attributeNotEqualMatch_correct_witness:
  "attributeNotEqualMatch ''id'' ''x''
     (At (Tree ElementNode ''p'' [\<lparr>Key = ''id'', Val = ''y''\<rparr>, \<lparr>Key = ''class'', Val = ''x''\<rparr>] []) Top) \<and>
   attributeNotEqualMatch ''lang'' ''x''
     (At (Tree ElementNode ''p'' [\<lparr>Key = ''id'', Val = ''y''\<rparr>] []) Top) \<and>
   \<not> attributeNotEqualMatch ''id'' ''y''
     (At (Tree ElementNode ''p'' [\<lparr>Key = ''id'', Val = ''y''\<rparr>] []) Top) \<and>
   \<not> attributeNotEqualMatch ''id'' ''x'' (At (Tree TextNode ''p'' [] []) Top)"
  using attributeNotEqualMatch_correct [of "''id''" "''x''"
      "At (Tree ElementNode ''p'' [\<lparr>Key = ''id'', Val = ''y''\<rparr>, \<lparr>Key = ''class'', Val = ''x''\<rparr>] []) Top"]
    attributeNotEqualMatch_correct [of "''lang''" "''x''"
      "At (Tree ElementNode ''p'' [\<lparr>Key = ''id'', Val = ''y''\<rparr>] []) Top"]
    attributeNotEqualMatch_correct [of "''id''" "''y''"
      "At (Tree ElementNode ''p'' [\<lparr>Key = ''id'', Val = ''y''\<rparr>] []) Top"]
    attributeNotEqualMatch_correct [of "''id''" "''x''" "At (Tree TextNode ''p'' [] []) Top"]
  by simp

section \<open>Properties of the nth-child family\<close>


lemma Type_At [simp]: "Type (At t p) = ttype t" by (cases t) simp
lemma Data_At [simp]: "Data (At t p) = tdata t" by (cases t) simp

lemma cnt_simps [simp]:
  "cnt ofType d [] = 0"
  "cnt ofType d (t # ts) = (if counts ofType d t then Suc (cnt ofType d ts) else cnt ofType d ts)"
  "cnt ofType d (ts @ us) = cnt ofType d ts + cnt ofType d us"
  "cnt ofType d (rev ts) = cnt ofType d ts"
  by (simp_all add: cnt_def flip: rev_filter)

declare nthChildMatch_loop.simps(2) [simp del]
declare simpleNthChildMatch_loop.simps(2) [simp del]
declare simpleNthLastChildMatch_loop.simps(2) [simp del]

lemma nth_loop_after:
  "length l < length lc \<Longrightarrow>
   nthChildMatch_loop last' ofType (At t (Below l ty' d' a' p' r)) (Some (At x (Below lc ty d a p rc))) i count
     = (i, count + of_nat (cnt ofType (tdata t) (x # rc)))"
proof (induction rc arbitrary: x lc count)
  case Nil
  then show ?case
    by (subst nthChildMatch_loop.simps) (auto simp: counts_def)
next
  case (Cons y rc)
  have "length l < length (x # lc)" using Cons.prems by simp
  from Cons.IH [OF this] Cons.prems show ?case
    by (subst nthChildMatch_loop.simps) (auto simp: counts_def)
qed

lemma nth_loop_upto:
  assumes "ttype t = ElementNode" and "x # rc = mid @ t # r"
  shows "nthChildMatch_loop last' ofType (At t (Below (rev mid @ lc) ty d a p r))
           (Some (At x (Below lc ty d a p rc))) i count
     = (count + of_nat (cnt ofType (tdata t) mid) + 1,
        count + of_nat (cnt ofType (tdata t) mid) + 1
          + (if last' then of_nat (cnt ofType (tdata t) r) else 0))"
  using assms
proof (induction mid arbitrary: x lc rc count i)
  case Nil
  then have [simp]: "x = t" "rc = r" by simp_all
  show ?case
  proof (cases r)
    case Nil
    with Nil.prems show ?thesis
      by (subst nthChildMatch_loop.simps) (auto simp: counts_def)
  next
    case (Cons y ys)
    have "length lc < length (t # lc)" by simp
    from nth_loop_after [OF this, of last' ofType t ty d a p r y ty d a p ys]
    show ?thesis using Cons Nil.prems
      by (subst nthChildMatch_loop.simps) (auto simp: counts_def)
  qed
next
  case (Cons m mid)
  then have xm: "x = m" and rc: "rc = mid @ t # r" by simp_all
  obtain y ys where yys: "y # ys = mid @ t # r" by (cases mid) auto
  have neq: "At m (Below lc ty d a p rc) \<noteq> At t (Below (rev (m # mid) @ lc) ty d a p r)"
    by (auto dest: arg_cong [where f = length])
  have ih: "nthChildMatch_loop last' ofType (At t (Below (rev (m # mid) @ lc) ty d a p r))
           (Some (At y (Below (m # lc) ty d a p ys))) i' count'
     = (count' + of_nat (cnt ofType (tdata t) mid) + 1,
        count' + of_nat (cnt ofType (tdata t) mid) + 1
          + (if last' then of_nat (cnt ofType (tdata t) r) else 0))" for i' count'
    using Cons.IH [OF Cons.prems(1) yys, of "m # lc"] by simp
  have nx: "NextSibling (At m (Below lc ty d a p rc)) = Some (At y (Below (m # lc) ty d a p ys))"
    unfolding rc yys [symmetric] by simp
  show ?case
    apply (subst nthChildMatch_loop.simps)
    apply (simp only: xm nx ih neq if_False)
    apply (simp add: counts_def)
    done
qed


lemma sint_of_nat_small: "k < 2 ^ 63 \<Longrightarrow> sint (of_nat k :: go_int) = int k"
proof -
  assume "k < 2 ^ 63"
  then have "int k < 2 ^ 63" by (metis of_nat_less_iff of_nat_numeral of_nat_power)
  then show ?thesis by (simp add: signed_of_nat signed_take_bit_int_eq_self)
qed

lemma of_nat_sle_small:
  "j < 2 ^ 63 \<Longrightarrow> k < 2 ^ 63 \<Longrightarrow> (of_nat j :: go_int) \<le>s of_nat k \<longleftrightarrow> j \<le> k"
  by (simp add: word_sle_eq sint_of_nat_small)

lemma of_nat_eq_small:
  "j < 2 ^ 63 \<Longrightarrow> k < 2 ^ 63 \<Longrightarrow> (of_nat j :: go_int) = of_nat k \<longleftrightarrow> j = k"
  by (metis sint_of_nat_small of_nat_eq_iff)

lemma simple_loop_upto:
  assumes "ttype t = ElementNode" and "x # rc = mid @ t # r"
    and "c0 + cnt ofType (tdata t) mid + 1 < 2 ^ 63"
  shows "simpleNthChildMatch_loop b ofType (At t (Below (rev mid @ lc) ty d a p r))
           (Some (At x (Below lc ty d a p rc))) (of_nat c0)
     \<longleftrightarrow> of_nat (c0 + cnt ofType (tdata t) mid + 1) = b"
  using assms
proof (induction mid arbitrary: x lc rc c0)
  case Nil
  then show ?case
    by (subst simpleNthChildMatch_loop.simps) (auto simp: counts_def)
next
  case (Cons m mid)
  then have xm: "x = m" and rc: "rc = mid @ t # r" by simp_all
  obtain y ys where yys: "y # ys = mid @ t # r" by (cases mid) auto
  have neq: "At m (Below lc ty d a p rc) \<noteq> At t (Below (rev (m # mid) @ lc) ty d a p r)"
    by (auto dest: arg_cong [where f = length])
  have nx: "NextSibling (At m (Below lc ty d a p rc)) = Some (At y (Below (m # lc) ty d a p ys))"
    unfolding rc yys [symmetric] by simp
  have ih: "c1 + cnt ofType (tdata t) mid + 1 < 2 ^ 63 \<Longrightarrow>
      simpleNthChildMatch_loop b ofType (At t (Below (rev (m # mid) @ lc) ty d a p r))
           (Some (At y (Below (m # lc) ty d a p ys))) (of_nat c1)
     \<longleftrightarrow> of_nat (c1 + cnt ofType (tdata t) mid + 1) = b" for c1
    using Cons.IH [OF Cons.prems(1) yys, of c1 "m # lc"] by simp
  show ?case
  proof (cases "counts ofType (tdata t) m")
    case False
    then show ?thesis
      using ih [of c0] Cons.prems(3)
      apply (subst simpleNthChildMatch_loop.simps)
      apply (simp only: xm nx neq if_False)
      apply (auto simp: counts_def)
      done
  next
    case True
    have bound: "Suc c0 + cnt ofType (tdata t) mid + 1 < 2 ^ 63"
      using Cons.prems(3) True by simp
    have one: "(of_nat c0 + 1 :: go_int) = of_nat (Suc c0)" by simp
    show ?thesis
    proof (cases "b \<le>s of_nat (Suc c0)")
      case le: True
      have "Suc c0 < 2 ^ 63" using bound by simp
      then have "sint (of_nat (Suc c0) :: go_int) = int (Suc c0)"
        by (rule sint_of_nat_small)
      then have "sint b \<le> int (Suc c0)"
        using le unfolding word_sle_eq by simp
      moreover have "sint (of_nat (Suc c0 + cnt ofType (tdata t) mid + 1) :: go_int)
          = int (Suc c0 + cnt ofType (tdata t) mid + 1)"
        using bound by (rule sint_of_nat_small)
      ultimately have "of_nat (Suc c0 + cnt ofType (tdata t) mid + 1) \<noteq> b"
        by auto
      then show ?thesis
        using True le
        apply (subst simpleNthChildMatch_loop.simps)
        apply (simp only: xm nx neq if_False one)
        apply (auto simp: counts_def)
        done
    next
      case nle: False
      then show ?thesis
        using True ih [OF bound]
        apply (subst simpleNthChildMatch_loop.simps)
        apply (simp only: xm nx neq if_False one)
        apply (auto simp: counts_def)
        done
    qed
  qed
qed


lemma simpleLast_loop_upto:
  assumes "ttype t = ElementNode" and "x # lc = mid @ t # l"
    and "c0 + cnt ofType (tdata t) mid + 1 < 2 ^ 63"
  shows "simpleNthLastChildMatch_loop b ofType (At t (Below l ty d a p (rev mid @ rc)))
           (Some (At x (Below lc ty d a p rc))) (of_nat c0)
     \<longleftrightarrow> of_nat (c0 + cnt ofType (tdata t) mid + 1) = b"
  using assms
proof (induction mid arbitrary: x lc rc c0)
  case Nil
  then show ?case
    by (subst simpleNthLastChildMatch_loop.simps) (auto simp: counts_def)
next
  case (Cons m mid)
  then have xm: "x = m" and lc: "lc = mid @ t # l" by simp_all
  obtain y ys where yys: "y # ys = mid @ t # l" by (cases mid) auto
  have neq: "At m (Below lc ty d a p rc) \<noteq> At t (Below l ty d a p (rev (m # mid) @ rc))"
    by (auto dest: arg_cong [where f = length])
  have nx: "PrevSibling (At m (Below lc ty d a p rc)) = Some (At y (Below ys ty d a p (m # rc)))"
    unfolding lc yys [symmetric] by simp
  have ih: "c1 + cnt ofType (tdata t) mid + 1 < 2 ^ 63 \<Longrightarrow>
      simpleNthLastChildMatch_loop b ofType (At t (Below l ty d a p (rev (m # mid) @ rc)))
           (Some (At y (Below ys ty d a p (m # rc)))) (of_nat c1)
     \<longleftrightarrow> of_nat (c1 + cnt ofType (tdata t) mid + 1) = b" for c1
    using Cons.IH [OF Cons.prems(1) yys, of c1 "m # rc"] by simp
  show ?case
  proof (cases "counts ofType (tdata t) m")
    case False
    then show ?thesis
      using ih [of c0] Cons.prems(3)
      apply (subst simpleNthLastChildMatch_loop.simps)
      apply (simp only: xm nx neq if_False)
      apply (auto simp: counts_def)
      done
  next
    case True
    have bound: "Suc c0 + cnt ofType (tdata t) mid + 1 < 2 ^ 63"
      using Cons.prems(3) True by simp
    have one: "(of_nat c0 + 1 :: go_int) = of_nat (Suc c0)" by simp
    show ?thesis
    proof (cases "b \<le>s of_nat (Suc c0)")
      case le: True
      have "Suc c0 < 2 ^ 63" using bound by simp
      then have "sint (of_nat (Suc c0) :: go_int) = int (Suc c0)"
        by (rule sint_of_nat_small)
      then have "sint b \<le> int (Suc c0)"
        using le unfolding word_sle_eq by simp
      moreover have "sint (of_nat (Suc c0 + cnt ofType (tdata t) mid + 1) :: go_int)
          = int (Suc c0 + cnt ofType (tdata t) mid + 1)"
        using bound by (rule sint_of_nat_small)
      ultimately have "of_nat (Suc c0 + cnt ofType (tdata t) mid + 1) \<noteq> b"
        by auto
      then show ?thesis
        using True le
        apply (subst simpleNthLastChildMatch_loop.simps)
        apply (simp only: xm nx neq if_False one)
        apply (auto simp: counts_def)
        done
    next
      case nle: False
      then show ?thesis
        using True ih [OF bound]
        apply (subst simpleNthLastChildMatch_loop.simps)
        apply (simp only: xm nx neq if_False one)
        apply (auto simp: counts_def)
        done
    qed
  qed
qed

lemma cnt_le_length: "cnt ofType d ts \<le> length ts"
  by (simp add: cnt_def)

lemma FirstChild_Cons:
  "x # rc = cs \<Longrightarrow> FirstChild (At (Tree ty d a cs) p) = Some (At x (Below [] ty d a p rc))"
  by auto

lemma LastChild_snoc:
  "x # lc = rev cs \<Longrightarrow> LastChild (At (Tree ty d a cs) p) = Some (At x (Below lc ty d a p []))"
  by (cases cs rule: rev_cases) auto

declare LastChild.simps [simp del]

text \<open>The values of the loops on a child of a parent.\<close>

lemma nth_loop_child:
  assumes "ttype t = ElementNode"
  shows "nthChildMatch_loop last' ofType (At t (Below l ty d a p r))
           (FirstChild (At (Tree ty d a (rev l @ t # r)) p)) i count
     = (count + of_nat (cnt ofType (tdata t) l) + 1,
        count + of_nat (cnt ofType (tdata t) l) + 1
          + (if last' then of_nat (cnt ofType (tdata t) r) else 0))"
proof -
  obtain x rc where x: "x # rc = rev l @ t # r" by (cases "rev l") auto
  show ?thesis
    using nth_loop_upto [OF assms x, of last' ofType "[]" ty d a p i count]
    by (simp add: FirstChild_Cons [OF x])
qed

lemma simple_loop_child:
  assumes "ttype t = ElementNode" and "length l < 2 ^ 63 - 1"
  shows "simpleNthChildMatch_loop b ofType (At t (Below l ty d a p r))
           (FirstChild (At (Tree ty d a (rev l @ t # r)) p)) 0
     \<longleftrightarrow> of_nat (cnt ofType (tdata t) l + 1) = b"
proof -
  obtain x rc where x: "x # rc = rev l @ t # r" by (cases "rev l") auto
  have "0 + cnt ofType (tdata t) (rev l) + 1 < 2 ^ 63"
    using assms(2) cnt_le_length [of ofType "tdata t" l] by simp
  from simple_loop_upto [OF assms(1) x this, of b "[]" ty d a p]
  show ?thesis
    by (simp add: FirstChild_Cons [OF x])
qed

lemma simpleLast_loop_child:
  assumes "ttype t = ElementNode" and "length r < 2 ^ 63 - 1"
  shows "simpleNthLastChildMatch_loop b ofType (At t (Below l ty d a p r))
           (LastChild (At (Tree ty d a (rev l @ t # r)) p)) 0
     \<longleftrightarrow> of_nat (cnt ofType (tdata t) r + 1) = b"
proof -
  obtain x lc where x: "x # lc = rev (rev l @ t # r)" by (cases "rev r") auto
  then have x': "x # lc = rev r @ t # l" by simp
  have "0 + cnt ofType (tdata t) (rev r) + 1 < 2 ^ 63"
    using assms(2) cnt_le_length [of ofType "tdata t" r] by simp
  from simpleLast_loop_upto [OF assms(1) x' this, of b ty d a p "[]"]
  show ?thesis
    unfolding LastChild_snoc [OF x] by simp
qed


text \<open>
  Claim C5. The fixed-position matchers used when \<^verbatim>\<open>a = 0\<close> agree with the general
  matcher at \<^verbatim>\<open>a = 0\<close>, for every \<^verbatim>\<open>b\<close>, both values of \<^verbatim>\<open>ofType\<close> and every node:
  \<^verbatim>\<open>simpleNthChildMatch(b, ofType, n) = nthChildMatch(0, b, false, ofType, n)\<close> and
  \<^verbatim>\<open>simpleNthLastChildMatch(b, ofType, n) = nthChildMatch(0, b, true, ofType, n)\<close>.
  The counters are machine integers, so the node has fewer than \<open>2\<^sup>6\<^sup>3\<close> siblings, as
  every tree held in memory does.
\<close>

theorem simpleNth_eq_nthChildMatch:
  assumes "length (siblings n) < 2 ^ 63"
  shows "simpleNthChildMatch b ofType n = nthChildMatch 0 b False ofType n \<and>
         simpleNthLastChildMatch b ofType n = nthChildMatch 0 b True ofType n"
proof (cases n)
  case (At t pa)
  show ?thesis
  proof (cases pa)
    case Top
    with At show ?thesis
      by (simp add: simpleNthChildMatch_def simpleNthLastChildMatch_def nthChildMatch_def)
  next
    case (Below l ty d a p r)
    show ?thesis
    proof (cases "ttype t = ElementNode \<and> ty \<noteq> DocumentNode")
      case False
      with At Below show ?thesis
        by (auto simp: simpleNthChildMatch_def simpleNthLastChildMatch_def nthChildMatch_def)
    next
      case True
      then have el: "ttype t = ElementNode" and ty: "ty \<noteq> DocumentNode" by simp_all
      have len: "length l < 2 ^ 63 - 1" "length r < 2 ^ 63 - 1"
        using assms At Below by simp_all
      let ?f = "cnt ofType (tdata t) l" and ?g = "cnt ofType (tdata t) r"
      have f: "?f + 1 < 2 ^ 63" and g: "?g + 1 < 2 ^ 63"
        using len cnt_le_length [of ofType "tdata t" l] cnt_le_length [of ofType "tdata t" r]
        by simp_all
      have nf: "(of_nat (?f + 1) :: go_int) \<noteq> - 1"
      proof
        assume eq: "(of_nat (?f + 1) :: go_int) = - 1"
        have "int (?f + 1) = sint (of_nat (?f + 1) :: go_int)"
          using sint_of_nat_small [OF f] by (rule sym)
        also have "\<dots> = sint (- 1 :: go_int)" using eq by (rule arg_cong)
        also have "\<dots> = - 1" by simp
        finally show False by simp
      qed
      have front: "simpleNthChildMatch b ofType n = nthChildMatch 0 b False ofType n"
        using el ty nf
        by (auto simp: At Below simpleNthChildMatch_def nthChildMatch_def
            simple_loop_child [OF el len(1)] nth_loop_child [OF el])
      have rear: "simpleNthLastChildMatch b ofType n = nthChildMatch 0 b True ofType n"
        using el ty nf
        by (auto simp: At Below simpleNthLastChildMatch_def nthChildMatch_def
            simpleLast_loop_child [OF el len(2)] nth_loop_child [OF el])
      from front rear show ?thesis ..
    qed
  qed
qed




lemma sint_wi_small:
  "- (2 ^ 63) \<le> k \<Longrightarrow> k < 2 ^ 63 \<Longrightarrow> sint (word_of_int k :: go_int) = k"
  by (simp add: signed_of_int signed_take_bit_int_eq_self)

lemma sint_go_bounds: "- (2 ^ 63) \<le> sint (x :: go_int)" "sint (x :: go_int) < 2 ^ 63"
  using sint_ge [of x] sint_lt [of x] by simp_all

lemma smod_int_eq_0_iff: "(k :: int) smod l = 0 \<longleftrightarrow> l dvd k"
proof -
  have "k smod l = 0 \<longleftrightarrow> \<bar>k\<bar> mod \<bar>l\<bar> = 0"
    by (cases "k = 0") (simp_all add: signed_modulo_int_def sgn_if)
  also have "\<dots> \<longleftrightarrow> \<bar>l\<bar> dvd \<bar>k\<bar>" by (simp add: dvd_eq_mod_eq_0)
  also have "\<dots> \<longleftrightarrow> l dvd k" by simp
  finally show ?thesis .
qed

lemma smod_int_abs_less: "l \<noteq> 0 \<Longrightarrow> \<bar>(k :: int) smod l\<bar> < \<bar>l\<bar>"
  by (cases "k = 0") (simp_all add: signed_modulo_int_def abs_mult sgn_if)

lemma sdiv_int_abs_le: "\<bar>(k :: int) sdiv l\<bar> \<le> \<bar>k\<bar>"
proof -
  have "\<bar>k\<bar> div \<bar>l\<bar> \<le> \<bar>k\<bar>"
  proof (cases "l = 0")
    case True then show ?thesis by simp
  next
    case False
    then have "1 \<le> \<bar>l\<bar>" by simp
    then have "\<bar>k\<bar> div \<bar>l\<bar> \<le> \<bar>k\<bar> div 1"
      by (intro zdiv_mono2) simp_all
    then show ?thesis by simp
  qed
  moreover have "0 \<le> \<bar>k\<bar> div \<bar>l\<bar>" by (simp add: div_int_pos_iff)
  moreover define q where "q = \<bar>k\<bar> div \<bar>l\<bar>"
  ultimately have q: "0 \<le> q" "q \<le> \<bar>k\<bar>" by simp_all
  have "\<bar>k sdiv l\<bar> = \<bar>sgn k\<bar> * \<bar>sgn l\<bar> * \<bar>q\<bar>"
    by (simp add: signed_divide_int_def abs_mult q_def)
  also have "\<dots> \<le> q"
    using q(1) by (cases "k = 0"; cases "l = 0") (simp_all add: abs_sgn_eq)
  finally show ?thesis using q(2) by simp
qed

lemma sdiv_int_dvd: "l dvd k \<Longrightarrow> (k :: int) sdiv l = k div l"
  by (simp add: signed_divide_int_eq_divide_int)


lemma divisible_word:
  fixes J a :: go_int
  assumes "a \<noteq> 0" and "- (2 ^ 63) < sint J"
  shows "rem J a = 0 \<and> 0 \<le>s quo J a \<longleftrightarrow> sint a dvd sint J \<and> 0 \<le> sint J div sint a"
proof -
  have a0: "sint a \<noteq> 0" using assms(1) by (metis sint_0 signed_word_eqI)
  have absJ: "\<bar>sint J\<bar> < 2 ^ 63" using assms(2) sint_go_bounds(2) [of J] by simp
  have absa: "\<bar>sint a\<bar> \<le> 2 ^ 63" using sint_go_bounds [of a] by simp
  have "\<bar>sint J smod sint a\<bar> < 2 ^ 63"
    using smod_int_abs_less [OF a0, of "sint J"] absa by simp
  then have m: "sint (word_of_int (sint J smod sint a) :: go_int) = sint J smod sint a"
    by (intro sint_wi_small) simp_all
  have "\<bar>sint J sdiv sint a\<bar> < 2 ^ 63"
    using sdiv_int_abs_le [of "sint J" "sint a"] absJ by simp
  then have d: "sint (word_of_int (sint J sdiv sint a) :: go_int) = sint J sdiv sint a"
    by (intro sint_wi_small) simp_all
  have "rem J a = 0 \<longleftrightarrow> sint (rem J a) = 0" by (metis sint_0 signed_word_eqI)
  also have "\<dots> \<longleftrightarrow> sint a dvd sint J" by (simp add: rem_def m smod_int_eq_0_iff)
  finally have r: "rem J a = 0 \<longleftrightarrow> sint a dvd sint J" .
  have q: "0 \<le>s quo J a \<longleftrightarrow> 0 \<le> sint J sdiv sint a"
    by (simp add: word_sle_eq quo_def d)
  show ?thesis using r q by (auto simp: sdiv_int_dvd)
qed

text \<open>
  Claim C3, as amended. For \<^verbatim>\<open>a \<noteq> 0\<close>, a node whose parent exists and is not the
  document node, and \<^verbatim>\<open>b\<close> such that \<^verbatim>\<open>i - b\<close> does not overflow the machine integer,
  the nth-child matcher holds exactly when the node is an element and, for \<^verbatim>\<open>i\<close> its
  1-based ordinal position among the counted siblings (from the front, or from the
  back for the last variants; siblings of the same tag name only for the of-type
  variants), \<^verbatim>\<open>a\<close> divides \<^verbatim>\<open>i - b\<close> and the quotient is not negative.
\<close>

theorem nthChildMatch_correct:
  assumes "a \<noteq> 0" and "Parent n = Some parent" and "Type parent \<noteq> DocumentNode"
    and "length (siblings n) < 2 ^ 63"
    and "ordinal last' ofType n - sint b < 2 ^ 63"
  shows "nthChildMatch a b last' ofType n \<longleftrightarrow>
     Type n = ElementNode \<and> sint a dvd (ordinal last' ofType n - sint b) \<and>
     0 \<le> (ordinal last' ofType n - sint b) div sint a"
proof (cases n)
  case (At t pa)
  show ?thesis
  proof (cases pa)
    case Top
    with At assms(2) show ?thesis by simp
  next
    case (Below l ty d a' p r)
    have par: "parent = At (Tree ty d a' (rev l @ t # r)) p" using assms(2) At Below by simp
    then have ty: "ty \<noteq> DocumentNode" using assms(3) by simp
    show ?thesis
    proof (cases "ttype t = ElementNode")
      case False
      with At Below show ?thesis by (simp add: nthChildMatch_def)
    next
      case el: True
      define k where "k = cnt ofType (tdata t) (if last' then r else l)"
      have len: "length l < 2 ^ 63 - 1" "length r < 2 ^ 63 - 1"
        using assms(4) At Below by simp_all
      let ?f = "cnt ofType (tdata t) l" and ?g = "cnt ofType (tdata t) r"
      have f: "?f + 1 < 2 ^ 63" and g: "?g + 1 < 2 ^ 63"
        using len cnt_le_length [of ofType "tdata t" l] cnt_le_length [of ofType "tdata t" r]
        by simp_all
      have k: "k + 1 < 2 ^ 63" using f g by (simp add: k_def)
      have nf: "(of_nat (?f + 1) :: go_int) \<noteq> - 1"
      proof
        assume eq: "(of_nat (?f + 1) :: go_int) = - 1"
        have "int (?f + 1) = sint (of_nat (?f + 1) :: go_int)"
          using sint_of_nat_small [OF f] by (rule sym)
        also have "\<dots> = sint (- 1 :: go_int)" using eq by (rule arg_cong)
        also have "\<dots> = - 1" by simp
        finally show False by simp
      qed
      have ord: "ordinal last' ofType n = int (k + 1)" by (simp add: At Below k_def)
      define J :: go_int where "J = of_nat (k + 1) - b"
      have "sint J = sint (word_of_int (int (k + 1) - sint b) :: go_int)"
        by (simp add: J_def)
      also have "\<dots> = int (k + 1) - sint b"
        using assms(5) sint_go_bounds [of b] unfolding ord
        by (intro sint_wi_small) simp_all
      finally have sJ: "sint J = int (k + 1) - sint b" .
      have low: "- (2 ^ 63) < sint J" using sJ sint_go_bounds(2) [of b] by simp
      have "nthChildMatch a b last' ofType n \<longleftrightarrow> rem J a = 0 \<and> 0 \<le>s quo J a"
        using el ty nf assms(1)
        by (auto simp: At Below nthChildMatch_def nth_loop_child [OF el] J_def k_def Let_def ac_simps)
      also have "\<dots> \<longleftrightarrow> sint a dvd sint J \<and> 0 \<le> sint J div sint a"
        by (rule divisible_word [OF assms(1) low])
      finally show ?thesis unfolding sJ ord [symmetric] using el by (simp add: At)
    qed
  qed
qed


text \<open>A \<^verbatim>\<open>div\<close> with the children \<^verbatim>\<open>a\<close>, text, \<^verbatim>\<open>b\<close>, \<^verbatim>\<open>a\<close>; its fourth child.\<close>

theorem nthChildMatch_correct_witness:
  "(2 :: go_int) \<noteq> 0 \<and>
   Parent (At (Tree ElementNode ''a'' [] [])
     (Below [Tree ElementNode ''b'' [] [], Tree TextNode ''x'' [] [], Tree ElementNode ''a'' [] []]
        ElementNode ''div'' [] Top [])) \<noteq> None \<and>
   nthChildMatch 2 1 False False (At (Tree ElementNode ''a'' [] [])
     (Below [Tree ElementNode ''b'' [] [], Tree TextNode ''x'' [] [], Tree ElementNode ''a'' [] []]
        ElementNode ''div'' [] Top []))"
  using nthChildMatch_correct [of 2 "At (Tree ElementNode ''a'' [] [])
     (Below [Tree ElementNode ''b'' [] [], Tree TextNode ''x'' [] [], Tree ElementNode ''a'' [] []]
        ElementNode ''div'' [] Top [])" _ False False 1]
  by (simp add: counts_def)

text \<open>
  The claim as stated fails under the document node: the root element is the first
  child of its parent, \<^verbatim>\<open>1 - 1\<close> is divisible by \<^verbatim>\<open>1\<close> with quotient \<^verbatim>\<open>0\<close>, and the
  matcher returns false, by its guard on the parent's type. It fails as well where
  \<^verbatim>\<open>i - b\<close> overflows: for the first child and \<^verbatim>\<open>b = -(2\<^sup>6\<^sup>3 - 1)\<close> the difference
  wraps to the least integer, and the quotient by \<^verbatim>\<open>1\<close> is negative.
\<close>

theorem nthChildMatch_counterexample:
  "Parent (At (Tree ElementNode ''html'' [] []) (Below [] DocumentNode [] [] Top [])) \<noteq> None \<and>
   \<not> (nthChildMatch 1 1 False False
          (At (Tree ElementNode ''html'' [] []) (Below [] DocumentNode [] [] Top [])) \<longleftrightarrow>
        Type (At (Tree ElementNode ''html'' [] []) (Below [] DocumentNode [] [] Top [])) = ElementNode \<and>
        sint (1 :: go_int) dvd
          (ordinal False False (At (Tree ElementNode ''html'' [] []) (Below [] DocumentNode [] [] Top []))
             - sint (1 :: go_int)) \<and>
        0 \<le> (ordinal False False (At (Tree ElementNode ''html'' [] []) (Below [] DocumentNode [] [] Top []))
             - sint (1 :: go_int)) div sint (1 :: go_int)) \<and>
   Parent (At (Tree ElementNode ''li'' [] []) (Below [] ElementNode ''ol'' [] Top [])) \<noteq> None \<and>
   \<not> (nthChildMatch 1 (- 9223372036854775807) False False
          (At (Tree ElementNode ''li'' [] []) (Below [] ElementNode ''ol'' [] Top [])) \<longleftrightarrow>
        Type (At (Tree ElementNode ''li'' [] []) (Below [] ElementNode ''ol'' [] Top [])) = ElementNode \<and>
        sint (1 :: go_int) dvd
          (ordinal False False (At (Tree ElementNode ''li'' [] []) (Below [] ElementNode ''ol'' [] Top []))
             - sint (- 9223372036854775807 :: go_int)) \<and>
        0 \<le> (ordinal False False (At (Tree ElementNode ''li'' [] []) (Below [] ElementNode ''ol'' [] Top []))
             - sint (- 9223372036854775807 :: go_int)) div sint (1 :: go_int))"
  by (simp add: nthChildMatch_def nthChildMatch_loop.simps quo_def rem_def word_sle_eq)

theorem simpleNth_eq_nthChildMatch_witness:
  "length (siblings (At (Tree ElementNode ''a'' [] [])
     (Below [Tree ElementNode ''b'' [] [], Tree TextNode ''x'' [] [], Tree ElementNode ''a'' [] []]
        ElementNode ''div'' [] Top [Tree ElementNode ''c'' [] []]))) < 2 ^ 63 \<and>
   simpleNthChildMatch 3 False (At (Tree ElementNode ''a'' [] [])
     (Below [Tree ElementNode ''b'' [] [], Tree TextNode ''x'' [] [], Tree ElementNode ''a'' [] []]
        ElementNode ''div'' [] Top [Tree ElementNode ''c'' [] []])) \<and>
   nthChildMatch 0 3 False False (At (Tree ElementNode ''a'' [] [])
     (Below [Tree ElementNode ''b'' [] [], Tree TextNode ''x'' [] [], Tree ElementNode ''a'' [] []]
        ElementNode ''div'' [] Top [Tree ElementNode ''c'' [] []])) \<and>
   \<not> simpleNthLastChildMatch 3 False (At (Tree ElementNode ''a'' [] [])
     (Below [Tree ElementNode ''b'' [] [], Tree TextNode ''x'' [] [], Tree ElementNode ''a'' [] []]
        ElementNode ''div'' [] Top [Tree ElementNode ''c'' [] []])) \<and>
   \<not> nthChildMatch 0 3 True False (At (Tree ElementNode ''a'' [] [])
     (Below [Tree ElementNode ''b'' [] [], Tree TextNode ''x'' [] [], Tree ElementNode ''a'' [] []]
        ElementNode ''div'' [] Top [Tree ElementNode ''c'' [] []]))"
  using simpleNth_eq_nthChildMatch [of "At (Tree ElementNode ''a'' [] [])
     (Below [Tree ElementNode ''b'' [] [], Tree TextNode ''x'' [] [], Tree ElementNode ''a'' [] []]
        ElementNode ''div'' [] Top [Tree ElementNode ''c'' [] []])" 3 False]
  by (simp add: simpleNthChildMatch_def simpleNthChildMatch_loop.simps word_sle_eq
      nthChildMatch_def nthChildMatch_loop.simps)

section \<open>Properties of the adjacent-sibling combinator\<close>

declare prevSiblings.simps [simp del]

lemma prevSiblings_None: "PrevSibling n = None \<Longrightarrow> prevSiblings n = []"
  by (subst prevSiblings.simps) simp

lemma prevSiblings_Some: "PrevSibling n = Some c \<Longrightarrow> prevSiblings n = c # prevSiblings c"
  by (subst prevSiblings.simps) simp

lemma siblingMatch_adjacent_loop_find:
  "siblingMatch_adjacent_loop s1 (PrevSibling n) \<longleftrightarrow> matchesAt s1 (firstUnskippedBefore n)"
proof (induction n rule: prevSiblings.induct)
  case (1 n)
  show ?case
  proof (cases "PrevSibling n")
    case None
    then show ?thesis by (simp add: prevSiblings_None firstUnskippedBefore_def)
  next
    case (Some c)
    with 1 [OF Some] show ?thesis by (simp add: prevSiblings_Some firstUnskippedBefore_def)
  qed
qed

lemma find_cong_set: "(\<And>x. x \<in> set xs \<Longrightarrow> P x = Q x) \<Longrightarrow> find P xs = find Q xs"
  by (induction xs) simp_all

text \<open>
  Claim C6, as amended. The adjacent-sibling matcher holds exactly when the node
  matches the right-hand compound and the first preceding sibling that is neither a
  text node nor a comment node matches the left sub-chain: walking backward, text and
  comment nodes are skipped without being tested, and only that one sibling is tested.
  Where the preceding siblings are elements, text nodes and comments only, that
  sibling is the first element among them.
\<close>

theorem siblingMatch_adjacent_correct:
  "(siblingMatch s1 s2 True n \<longleftrightarrow> s2 n \<and> matchesAt s1 (firstUnskippedBefore n)) \<and>
   ((\<forall>c \<in> set (prevSiblings n). Type c \<in> {ElementNode, TextNode, CommentNode}) \<longrightarrow>
    (siblingMatch s1 s2 True n \<longleftrightarrow> s2 n \<and> matchesAt s1 (firstElementBefore n)))"
proof -
  have gen: "siblingMatch s1 s2 True n \<longleftrightarrow> s2 n \<and> matchesAt s1 (firstUnskippedBefore n)"
    by (simp add: siblingMatch_def siblingMatch_adjacent_loop_find)
  have "firstUnskippedBefore n = firstElementBefore n"
    if "\<forall>c \<in> set (prevSiblings n). Type c \<in> {ElementNode, TextNode, CommentNode}"
    unfolding firstUnskippedBefore_def firstElementBefore_def
    using that by (intro find_cong_set) auto
  with gen show ?thesis by simp
qed

text \<open>An \<^verbatim>\<open>a\<close>, a text node and a \<^verbatim>\<open>b\<close> under a \<^verbatim>\<open>div\<close>: \<^verbatim>\<open>a + b\<close> matches the \<^verbatim>\<open>b\<close>.\<close>

theorem siblingMatch_adjacent_correct_witness:
  "list_all (\<lambda>c. Type c \<in> {ElementNode, TextNode, CommentNode})
     (prevSiblings (At (Tree ElementNode ''b'' [] [])
       (Below [Tree TextNode ''x'' [] [], Tree ElementNode ''a'' [] []] ElementNode ''div'' [] Top []))) \<and>
   firstElementBefore (At (Tree ElementNode ''b'' [] [])
       (Below [Tree TextNode ''x'' [] [], Tree ElementNode ''a'' [] []] ElementNode ''div'' [] Top []))
     = Some (At (Tree ElementNode ''a'' [] [])
         (Below [] ElementNode ''div'' [] Top [Tree TextNode ''x'' [] [], Tree ElementNode ''b'' [] []])) \<and>
   siblingMatch (tagSelector_Match ''a'') (tagSelector_Match ''b'') True
     (At (Tree ElementNode ''b'' [] [])
       (Below [Tree TextNode ''x'' [] [], Tree ElementNode ''a'' [] []] ElementNode ''div'' [] Top []))"
  using siblingMatch_adjacent_correct [of "tagSelector_Match ''a''" "tagSelector_Match ''b''"
     "At (Tree ElementNode ''b'' [] [])
       (Below [Tree TextNode ''x'' [] [], Tree ElementNode ''a'' [] []] ElementNode ''div'' [] Top [])"]
  by (simp add: prevSiblings.simps tagSelector_Match_def firstElementBefore_def
      firstUnskippedBefore_def)

text \<open>
  The claim as stated fails where a sibling that is neither an element, a text node
  nor a comment stands between: with an \<^verbatim>\<open>a\<close>, a doctype node and a \<^verbatim>\<open>b\<close>, the first
  element before the \<^verbatim>\<open>b\<close> is the \<^verbatim>\<open>a\<close>, but the matcher tests the doctype node.
\<close>

theorem siblingMatch_adjacent_counterexample:
  "Parent (At (Tree ElementNode ''b'' [] [])
       (Below [Tree DoctypeNode ''html'' [] [], Tree ElementNode ''a'' [] []] ElementNode ''div'' [] Top []))
     \<noteq> None \<and>
   \<not> (siblingMatch (tagSelector_Match ''a'') (tagSelector_Match ''b'') True
        (At (Tree ElementNode ''b'' [] [])
          (Below [Tree DoctypeNode ''html'' [] [], Tree ElementNode ''a'' [] []] ElementNode ''div'' [] Top []))
      \<longleftrightarrow>
      tagSelector_Match ''b'' (At (Tree ElementNode ''b'' [] [])
          (Below [Tree DoctypeNode ''html'' [] [], Tree ElementNode ''a'' [] []] ElementNode ''div'' [] Top []))
      \<and> matchesAt (tagSelector_Match ''a'') (firstElementBefore (At (Tree ElementNode ''b'' [] [])
          (Below [Tree DoctypeNode ''html'' [] [], Tree ElementNode ''a'' [] []] ElementNode ''div'' [] Top []))))"
  by (simp add: prevSiblings.simps tagSelector_Match_def siblingMatch_def firstElementBefore_def)

section \<open>Properties of the lexical primitives\<close>


lemma byte_Char [simp]:
  "byte (Char b0 b1 b2 b3 b4 b5 b6 b7) = of_char (Char b0 b1 b2 b3 b4 b5 b6 b7)"
  by (simp add: byte_def)

lemma byte_char_of: "n < 256 \<Longrightarrow> byte (char_of n) = n"
  by (simp add: byte_def)

lemma byte_eq_iff: "byte c = byte d \<longleftrightarrow> c = d"
  by (simp add: byte_def)

lemma lowerASCII_cases:
  "lowerASCII c = d \<Longrightarrow> c = d \<or> (65 \<le> byte c \<and> byte c \<le> 90 \<and> byte d = byte c + 32)"
  by (auto simp: lowerASCII_def byte_char_of split: if_splits)

lemma lowerASCII_o: "lowerASCII c = CHR ''o'' \<Longrightarrow> c = CHR ''o'' \<or> c = CHR ''O''"
  using lowerASCII_cases [of c "CHR ''o''"] byte_eq_iff [of c "CHR ''O''"] by auto

lemma lowerASCII_e: "lowerASCII c = CHR ''e'' \<Longrightarrow> c = CHR ''e'' \<or> c = CHR ''E''"
  using lowerASCII_cases [of c "CHR ''e''"] byte_eq_iff [of c "CHR ''E''"] by auto

lemma lowerASCII_nameChar: "nameChar (lowerASCII c) \<Longrightarrow> nameChar c"
  by (auto simp: lowerASCII_def nameChar_def split: if_splits)

lemma toLowerASCII_nameChars:
  "\<forall>d \<in> set (toLowerASCII w). nameChar d \<Longrightarrow> \<forall>c \<in> set w. nameChar c"
  by (auto simp: toLowerASCII_def lowerASCII_nameChar)

lemma takeWhile_run:
  "\<forall>x \<in> set ds. P x \<Longrightarrow> rest = [] \<or> \<not> P (hd rest) \<Longrightarrow>
   takeWhile P (ds @ rest) = ds \<and> dropWhile P (ds @ rest) = rest"
  by (cases rest) (auto simp: takeWhile_append2 dropWhile_append2)

lemma parseName_loop_run:
  assumes "w \<noteq> []" and "\<forall>c \<in> set w. nameChar c"
    and "rest = [] \<or> \<not> nameChar (hd rest) \<and> hd rest \<noteq> CHR 0x5C"
  shows "parseName_loop result (w @ rest) = Inr (result @ w, rest)"
proof -
  obtain c cs where w: "w = c # cs" using assms(1) by (cases w) auto
  have run: "takeWhile nameChar (w @ rest) = w \<and> dropWhile nameChar (w @ rest) = rest"
    using assms(2,3) by (intro takeWhile_run) auto
  have "parseName_loop result (w @ rest) = parseName_loop (result @ w) rest"
    using run assms(2) unfolding w by simp
  also have "\<dots> = Inr (result @ w, rest)"
    using assms(3) by (cases rest) auto
  finally show ?thesis .
qed

lemma parseName_run:
  assumes "w \<noteq> []" and "\<forall>c \<in> set w. nameChar c"
    and "rest = [] \<or> \<not> nameChar (hd rest) \<and> hd rest \<noteq> CHR 0x5C"
  shows "parseName (w @ rest) = Inr (w, rest)"
  using parseName_loop_run [OF assms, of "[]"] assms(1) by (simp add: parseName_def)


text \<open>
  The digits of the specification are the bytes that \<^verbatim>\<open>parseInteger\<close> accepts, and the
  number they denote is the value that \<^verbatim>\<open>strconv.Atoi\<close> computes.
\<close>

lemma decimalDigit_isDigit: "decimalDigit c \<Longrightarrow> isDigit c"
  by (auto simp: decimalDigit_def isDigit_def)

lemma char_of_digit:
  "(n::nat) \<in> {48, 49, 50, 51, 52, 53, 54, 55, 56, 57} \<Longrightarrow> decimalDigit (char_of n)"
  by (elim insertE emptyE; hypsubst; simp add: decimalDigit_def char_of_def bit_simps)

lemma isDigit_decimalDigit:
  assumes "isDigit c"
  shows "decimalDigit c"
proof -
  have b: "48 \<le> (of_char c :: nat)" "(of_char c :: nat) \<le> 57"
    using assms by (simp_all add: isDigit_def byte_def)
  then have "(of_char c :: nat) \<in> {48, 49, 50, 51, 52, 53, 54, 55, 56, 57}"
    by (simp only: insert_iff empty_iff) arith
  then have "decimalDigit (char_of (of_char c :: nat))"
    by (rule char_of_digit)
  then show ?thesis
    by simp
qed

lemma isDigit_iff: "isDigit c \<longleftrightarrow> decimalDigit c"
  using isDigit_decimalDigit [of c] decimalDigit_isDigit [of c] by blast

lemma digitValue_byte: "decimalDigit c \<Longrightarrow> int (byte c - byte CHR ''0'') = digitValue c"
  unfolding decimalDigit_def set_simps insert_iff empty_iff
  by (elim disjE FalseE; hypsubst; simp add: digitValue_def)

lemma decimalValue_foldl:
  assumes "list_all decimalDigit ds"
  shows "foldl (\<lambda>v c. 10 * v + int (byte c - byte CHR ''0'')) v ds
    = v * 10 ^ length ds + denotes ds"
  using assms
proof (induction ds arbitrary: v)
  case Nil
  show ?case by simp
next
  case (Cons c cs)
  let ?f = "\<lambda>v c. 10 * v + int (byte c - byte CHR ''0'')"
  have d: "int (byte c - byte CHR ''0'') = digitValue c"
    using Cons.prems by (intro digitValue_byte) simp
  have cs: "list_all decimalDigit cs"
    using Cons.prems by simp
  have "foldl ?f v (c # cs) = foldl ?f (10 * v + digitValue c) cs"
    by (simp only: foldl.simps d)
  also have "\<dots> = (10 * v + digitValue c) * 10 ^ length cs + denotes cs"
    by (rule Cons.IH [OF cs])
  also have "\<dots> = v * 10 ^ length (c # cs) + denotes (c # cs)"
    by (simp add: algebra_simps)
  finally show ?case .
qed

lemma decimalValue_denotes: "list_all decimalDigit ds \<Longrightarrow> decimalValue ds = denotes ds"
  using decimalValue_foldl [of ds 0] by (simp add: decimalValue_def)

lemma digits_run:
  assumes "digits ds" and "endsNumber rest"
  shows "takeWhile isDigit (ds @ rest) = ds \<and> dropWhile isDigit (ds @ rest) = rest"
  using assms
  by (intro takeWhile_run) (auto simp: digits_def endsNumber_def list_all_iff isDigit_iff)

lemma Atoi_digits:
  "digits ds \<Longrightarrow>
   Atoi ds = (if inRange ds then Inr (number ds)
              else Inl (NumError ''Atoi'' ds ''value out of range''))"
  by (simp add: Atoi_def digits_def inRange_def number_def decimalValue_denotes)

lemma parseInteger_run:
  assumes "digits ds" and "inRange ds" and "endsNumber rest"
  shows "parseInteger (ds @ rest) = Inr (number ds, rest)"
  using digits_run [OF assms(1,3)] Atoi_digits [OF assms(1)] assms(1,2)
  by (simp add: parseInteger_def digits_def)

lemma parseInteger_overflow:
  assumes "digits ds" and "\<not> inRange ds" and "endsNumber rest"
  shows "parseInteger (ds @ rest) = Inl (NumError ''Atoi'' ds ''value out of range'')"
  using digits_run [OF assms(1,3)] Atoi_digits [OF assms(1)] assms(1,2)
  by (simp add: parseInteger_def digits_def)

section \<open>Properties of the An+B parser\<close>

lemma digits_hd: "digits ds \<Longrightarrow> \<exists>c cs. ds = c # cs \<and> isDigit c"
  by (cases ds) (auto simp: digits_def decimalDigit_isDigit)

lemma isDigit_not_sign: "isDigit c \<Longrightarrow> c \<noteq> CHR ''-'' \<and> c \<noteq> CHR ''+'' \<and> \<not> isN c"
  by (auto simp: isDigit_def isN_def)

lemma parseNth_readA_number:
  "rest \<noteq> [] \<Longrightarrow> \<not> isN (hd rest) \<Longrightarrow> parseNth_readA a rest = Inr ((0, a), rest)"
  by (cases rest) (auto simp: parseNth_readA_def)

lemma parseNth_positiveA_digits:
  assumes "digits ds" and "inRange ds" and "endsNumber rest"
  shows "parseNth_positiveA (ds @ rest) = parseNth_readA (number ds) rest"
proof -
  obtain c cs where "ds = c # cs" "isDigit c" using digits_hd [OF assms(1)] by auto
  then show ?thesis
    using parseInteger_run [OF assms] by (simp add: parseNth_positiveA_def)
qed

lemma parseNth_negativeA_digits:
  assumes "digits ds" and "inRange ds" and "endsNumber rest"
  shows "parseNth_negativeA (ds @ rest) = parseNth_readA (- number ds) rest"
proof -
  obtain c cs where "ds = c # cs" "isDigit c" using digits_hd [OF assms(1)] by auto
  then show ?thesis
    using parseInteger_run [OF assms] by (simp add: parseNth_negativeA_def)
qed

lemma parseNth_digits:
  assumes "digits ds" and "inRange ds" and "endsNumber rest"
  shows "parseNth (ds @ rest) = parseNth_readA (number ds) rest"
proof -
  obtain c cs where "ds = c # cs" "isDigit c" using digits_hd [OF assms(1)] by auto
  then show ?thesis
    using parseNth_positiveA_digits [OF assms] isDigit_not_sign [of c]
    by (simp add: parseNth_def)
qed

lemma parseNth_positiveA_overflow:
  assumes "digits ds" and "\<not> inRange ds" and "endsNumber rest"
  shows "parseNth_positiveA (ds @ rest) = Inl (NumError ''Atoi'' ds ''value out of range'')"
proof -
  obtain c cs where "ds = c # cs" "isDigit c" using digits_hd [OF assms(1)] by auto
  then show ?thesis
    using parseInteger_overflow [OF assms] by (simp add: parseNth_positiveA_def)
qed

lemma parseNth_negativeA_overflow:
  assumes "digits ds" and "\<not> inRange ds" and "endsNumber rest"
  shows "parseNth_negativeA (ds @ rest) = Inl (NumError ''Atoi'' ds ''value out of range'')"
proof -
  obtain c cs where "ds = c # cs" "isDigit c" using digits_hd [OF assms(1)] by auto
  then show ?thesis
    using parseInteger_overflow [OF assms] by (simp add: parseNth_negativeA_def)
qed

lemma parseNth_overflow:
  assumes "digits ds" and "\<not> inRange ds" and "endsNumber rest"
  shows "parseNth (ds @ rest) = Inl (NumError ''Atoi'' ds ''value out of range'')"
proof -
  obtain c cs where "ds = c # cs" "isDigit c" using digits_hd [OF assms(1)] by auto
  then show ?thesis
    using parseNth_positiveA_overflow [OF assms] isDigit_not_sign [of c]
    by (simp add: parseNth_def)
qed

lemma endsNumber_Nil: "endsNumber []"
  by (simp add: endsNumber_def)

lemma parseNth_keyword:
  assumes "toLowerASCII w = k" and "k = ''odd'' \<or> k = ''even''" and "endsName rest"
  shows "parseNth (w @ rest) =
    (if k = ''odd'' then Inr ((2, 1), rest) else Inr ((2, 0), rest))"
proof -
  have "\<forall>d \<in> set (toLowerASCII w). nameChar d"
    using assms(1,2) by (auto simp: nameChar_def)
  then have nc: "\<forall>c \<in> set w. nameChar c" by (rule toLowerASCII_nameChars)
  obtain c cs where w: "w = c # cs" using assms(1,2) by (cases w) (auto simp: toLowerASCII_def)
  have "lowerASCII c = CHR ''o'' \<or> lowerASCII c = CHR ''e''"
    using assms(1,2) w by (auto simp: toLowerASCII_def)
  then have c: "c = CHR ''o'' \<or> c = CHR ''O'' \<or> c = CHR ''e'' \<or> c = CHR ''E''"
    using lowerASCII_o lowerASCII_e by blast
  have pn: "parseName (c # cs @ rest) = Inr (w, rest)"
    using parseName_run [of w rest] nc assms(3) w by (simp add: endsName_def)
  have n1: "c \<noteq> CHR ''-''" "c \<noteq> CHR ''+''" "\<not> isDigit c" "\<not> isN c"
    using c by (auto simp: isDigit_def isN_def)
  have "parseNth (c # cs @ rest) =
      (if toLowerASCII w = ''odd'' then Inr ((2, 1), rest)
       else if toLowerASCII w = ''even'' then Inr ((2, 0), rest)
       else Inl (Errorf ''expected 'odd' or 'even', but found '%s' instead''
                   [ArgString (toLowerASCII w)]))"
    unfolding parseNth_def using n1 c pn by simp
  then show ?thesis
    unfolding w [symmetric] append_Cons [symmetric] using assms(1,2) by auto
qed

text \<open>
  Claim C4, as amended. The An+B parser returns \<^verbatim>\<open>(a=2, b=1)\<close> for the keyword \<^verbatim>\<open>odd\<close> and
  \<^verbatim>\<open>(a=2, b=0)\<close> for \<^verbatim>\<open>even\<close> in any letter case. When a run of digits that denotes at most
  \<open>2\<^sup>6\<^sup>3 - 1\<close>, after an optional sign, is followed by a character other than the
  \<^verbatim>\<open>n\<close>/\<^verbatim>\<open>N\<close> marker, it returns \<^verbatim>\<open>a=0\<close> with that integer, with its sign, as \<^verbatim>\<open>b\<close>. When
  the marker appears preceded only by an optional sign, \<^verbatim>\<open>a\<close> is \<^verbatim>\<open>+1\<close> or \<^verbatim>\<open>-1\<close> as the
  sign says, and such a run of digits before the marker is \<^verbatim>\<open>a\<close>. After the marker and
  optional whitespace, a \<^verbatim>\<open>+\<close> or \<^verbatim>\<open>-\<close>, optional whitespace and such a run of digits
  give \<^verbatim>\<open>b\<close>, and \<^verbatim>\<open>b\<close> is \<^verbatim>\<open>0\<close> when the text goes on with any other character.
  Wherever an integer is read, a run of digits that denotes more than \<open>2\<^sup>6\<^sup>3 - 1\<close> is
  rejected with the range error of \<^verbatim>\<open>strconv.Atoi\<close>, also after a minus sign. When the
  text ends after the integer, or after the marker and whitespace, the parser reports
  an unexpected end of the text.
\<close>

theorem parseNth_correct:
  "(toLowerASCII w = ''odd'' \<and> endsName rest \<longrightarrow> parseNth (w @ rest) = Inr ((2, 1), rest)) \<and>
   (toLowerASCII w = ''even'' \<and> endsName rest \<longrightarrow> parseNth (w @ rest) = Inr ((2, 0), rest)) \<and>
   (digits ds \<and> inRange ds \<and> rest \<noteq> [] \<and> \<not> decimalDigit (hd rest) \<and> \<not> isN (hd rest) \<longrightarrow>
      parseNth (ds @ rest) = Inr ((0, number ds), rest) \<and>
      parseNth (CHR ''+'' # ds @ rest) = Inr ((0, number ds), rest) \<and>
      parseNth (CHR ''-'' # ds @ rest) = Inr ((0, - number ds), rest)) \<and>
   (isN m \<longrightarrow>
      parseNth (m # t) = parseNth_readN 1 t \<and>
      parseNth (CHR ''+'' # m # t) = parseNth_readN 1 t \<and>
      parseNth (CHR ''-'' # m # t) = parseNth_readN (- 1) t) \<and>
   (isN m \<and> digits ds \<and> inRange ds \<longrightarrow>
      parseNth (ds @ m # t) = parseNth_readN (number ds) t \<and>
      parseNth (CHR ''+'' # ds @ m # t) = parseNth_readN (number ds) t \<and>
      parseNth (CHR ''-'' # ds @ m # t) = parseNth_readN (- number ds) t) \<and>
   (snd (skipWhitespace t) = c # u \<and> c \<noteq> CHR ''+'' \<and> c \<noteq> CHR ''-'' \<longrightarrow>
      parseNth_readN a t = Inr ((a, 0), c # u)) \<and>
   (snd (skipWhitespace t) = CHR ''+'' # u \<and> snd (skipWhitespace u) = ds @ rest \<and>
    digits ds \<and> inRange ds \<and> endsNumber rest \<longrightarrow>
      parseNth_readN a t = Inr ((a, number ds), rest)) \<and>
   (snd (skipWhitespace t) = CHR ''-'' # u \<and> snd (skipWhitespace u) = ds @ rest \<and>
    digits ds \<and> inRange ds \<and> endsNumber rest \<longrightarrow>
      parseNth_readN a t = Inr ((a, - number ds), rest)) \<and>
   (digits es \<and> \<not> inRange es \<and> endsNumber rest \<longrightarrow>
      parseNth (es @ rest) = Inl (NumError ''Atoi'' es ''value out of range'') \<and>
      parseNth (CHR ''+'' # es @ rest) = Inl (NumError ''Atoi'' es ''value out of range'') \<and>
      parseNth (CHR ''-'' # es @ rest) = Inl (NumError ''Atoi'' es ''value out of range'')) \<and>
   (snd (skipWhitespace t) = sign # u \<and> (sign = CHR ''+'' \<or> sign = CHR ''-'') \<and>
    snd (skipWhitespace u) = es @ rest \<and> digits es \<and> \<not> inRange es \<and> endsNumber rest \<longrightarrow>
      parseNth_readN a t = Inl (NumError ''Atoi'' es ''value out of range'')) \<and>
   (digits ds \<and> inRange ds \<longrightarrow>
      parseNth ds = parseNth_eof \<and>
      parseNth (CHR ''+'' # ds) = parseNth_eof \<and>
      parseNth (CHR ''-'' # ds) = parseNth_eof) \<and>
   (snd (skipWhitespace t) = [] \<longrightarrow> parseNth_readN a t = parseNth_eof)"
proof (intro conjI impI; (elim conjE)?)
  assume "toLowerASCII w = ''odd''" "endsName rest"
  then show "parseNth (w @ rest) = Inr ((2, 1), rest)"
    using parseNth_keyword [of w "''odd''" rest] by simp
next
  assume "toLowerASCII w = ''even''" "endsName rest"
  then show "parseNth (w @ rest) = Inr ((2, 0), rest)"
    using parseNth_keyword [of w "''even''" rest] by simp
next
  assume a: "digits ds" "inRange ds" "rest \<noteq> []" "\<not> decimalDigit (hd rest)" "\<not> isN (hd rest)"
  then have e: "endsNumber rest" by (simp add: endsNumber_def)
  show "parseNth (ds @ rest) = Inr ((0, number ds), rest)"
    using parseNth_digits [OF a(1,2) e] parseNth_readA_number [OF a(3,5)] by simp
  show "parseNth (CHR ''+'' # ds @ rest) = Inr ((0, number ds), rest)"
    using parseNth_positiveA_digits [OF a(1,2) e] parseNth_readA_number [OF a(3,5)]
    by (simp add: parseNth_def)
  show "parseNth (CHR ''-'' # ds @ rest) = Inr ((0, - number ds), rest)"
    using parseNth_negativeA_digits [OF a(1,2) e] parseNth_readA_number [OF a(3,5)]
    by (simp add: parseNth_def)
next
  assume "isN m"
  then show "parseNth (m # t) = parseNth_readN 1 t"
    "parseNth (CHR ''+'' # m # t) = parseNth_readN 1 t"
    "parseNth (CHR ''-'' # m # t) = parseNth_readN (- 1) t"
    by (auto simp: parseNth_def parseNth_positiveA_def parseNth_negativeA_def isN_def isDigit_def)
next
  assume a: "isN m" "digits ds" "inRange ds"
  have "\<not> isDigit m" using a(1) by (auto simp: isN_def isDigit_def)
  then have e: "endsNumber (m # t)" by (simp add: endsNumber_def isDigit_iff)
  have r: "parseNth_readA x (m # t) = parseNth_readN x t" for x
    using a(1) by (simp add: parseNth_readA_def)
  show "parseNth (ds @ m # t) = parseNth_readN (number ds) t"
    using parseNth_digits [OF a(2,3) e] r by simp
  show "parseNth (CHR ''+'' # ds @ m # t) = parseNth_readN (number ds) t"
    using parseNth_positiveA_digits [OF a(2,3) e] r by (simp add: parseNth_def)
  show "parseNth (CHR ''-'' # ds @ m # t) = parseNth_readN (- number ds) t"
    using parseNth_negativeA_digits [OF a(2,3) e] r by (simp add: parseNth_def)
next
  assume "snd (skipWhitespace t) = c # u" "c \<noteq> CHR ''+''" "c \<noteq> CHR ''-''"
  then show "parseNth_readN a t = Inr ((a, 0), c # u)"
    by (simp add: parseNth_readN_def)
next
  assume a: "snd (skipWhitespace t) = CHR ''+'' # u" "snd (skipWhitespace u) = ds @ rest"
    "digits ds" "inRange ds" "endsNumber rest"
  show "parseNth_readN a t = Inr ((a, number ds), rest)"
    using parseInteger_run [OF a(3-5)] a(1,2) by (simp add: parseNth_readN_def)
next
  assume a: "snd (skipWhitespace t) = CHR ''-'' # u" "snd (skipWhitespace u) = ds @ rest"
    "digits ds" "inRange ds" "endsNumber rest"
  show "parseNth_readN a t = Inr ((a, - number ds), rest)"
    using parseInteger_run [OF a(3-5)] a(1,2) by (simp add: parseNth_readN_def)
next
  assume a: "digits es" "\<not> inRange es" "endsNumber rest"
  show "parseNth (es @ rest) = Inl (NumError ''Atoi'' es ''value out of range'')"
    by (rule parseNth_overflow [OF a])
  show "parseNth (CHR ''+'' # es @ rest) = Inl (NumError ''Atoi'' es ''value out of range'')"
    using parseNth_positiveA_overflow [OF a] by (simp add: parseNth_def)
  show "parseNth (CHR ''-'' # es @ rest) = Inl (NumError ''Atoi'' es ''value out of range'')"
    using parseNth_negativeA_overflow [OF a] by (simp add: parseNth_def)
next
  assume a: "snd (skipWhitespace t) = sign # u" "sign = CHR ''+'' \<or> sign = CHR ''-''"
    "snd (skipWhitespace u) = es @ rest" "digits es" "\<not> inRange es" "endsNumber rest"
  show "parseNth_readN a t = Inl (NumError ''Atoi'' es ''value out of range'')"
    using parseInteger_overflow [OF a(4-6)] a(1-3) by (auto simp: parseNth_readN_def)
next
  assume a: "digits ds" "inRange ds"
  have r: "parseNth_readA x [] = parseNth_eof" for x
    by (simp add: parseNth_readA_def)
  show "parseNth ds = parseNth_eof"
    using parseNth_digits [OF a endsNumber_Nil] r by simp
  show "parseNth (CHR ''+'' # ds) = parseNth_eof"
    using parseNth_positiveA_digits [OF a endsNumber_Nil] r by (simp add: parseNth_def)
  show "parseNth (CHR ''-'' # ds) = parseNth_eof"
    using parseNth_negativeA_digits [OF a endsNumber_Nil] r by (simp add: parseNth_def)
next
  assume "snd (skipWhitespace t) = []"
  then show "parseNth_readN a t = parseNth_eof"
    by (simp add: parseNth_readN_def)
qed

theorem parseNth_correct_witness:
  "parseNth ''OdD)'' = Inr ((2, 1), '')'') \<and>
   parseNth ''eVen )'' = Inr ((2, 0), '' )'') \<and>
   parseNth ''-7)'' = Inr ((0, - 7), '')'') \<and>
   parseNth ''-n+ 3)'' = Inr ((- 1, 3), '')'') \<and>
   parseNth ''2N)'' = Inr ((2, 0), '')'') \<and>
   parseNth ''-18446744073709551616n)''
     = Inl (NumError ''Atoi'' ''18446744073709551616'' ''value out of range'') \<and>
   parseNth ''n - 18446744073709551616)''
     = Inl (NumError ''Atoi'' ''18446744073709551616'' ''value out of range'') \<and>
   parseNth ''+3'' = parseNth_eof \<and>
   parseNth ''n '' = parseNth_eof"
  using parseNth_correct [where w = "''OdD''" and rest = "'')''" and ds = "''7''" and m = "CHR ''n''"
      and t = "''+ 3)''" and c = "CHR ''x''" and u = "'' 3)''" and a = "- 1"
      and es = "''18446744073709551616''" and sign = "CHR ''+''"]
    parseNth_correct [where w = "''eVen''" and rest = "'' )''" and ds = "''2''" and m = "CHR ''N''"
      and t = "'')''" and c = "CHR '')''" and u = "[]" and a = 2
      and es = "''18446744073709551616''" and sign = "CHR ''+''"]
    parseNth_correct [where w = "[]" and rest = "'')''" and ds = "''3''" and m = "CHR ''n''"
      and t = "''+ 3)''" and c = "CHR ''x''" and u = "'' 3)''" and a = "- 1"
      and es = "''18446744073709551616''" and sign = "CHR ''+''"]
    parseNth_correct [where w = "[]" and rest = "''n)''" and ds = "''3''" and m = "CHR ''n''"
      and t = "'' - 18446744073709551616)''" and c = "CHR ''x''" and u = "'' 18446744073709551616)''"
      and a = 1 and es = "''18446744073709551616''" and sign = "CHR ''-''"]
    parseNth_correct [where w = "[]" and rest = "'')''" and ds = "''3''" and m = "CHR ''n''"
      and t = "'' - 18446744073709551616)''" and c = "CHR ''x''" and u = "'' 18446744073709551616)''"
      and a = 1 and es = "''18446744073709551616''" and sign = "CHR ''-''"]
    parseNth_correct [where w = "[]" and rest = "'')''" and ds = "''3''" and m = "CHR ''n''"
      and t = "'' ''" and c = "CHR ''x''" and u = "[]" and a = 1
      and es = "''18446744073709551616''" and sign = "CHR ''-''"]
  by (simp add: toLowerASCII_def lowerASCII_def endsName_def nameChar_def digits_def decimalDigit_def
      digitValue_def inRange_def number_def isN_def skipWhitespace_def isSpace_def endsNumber_def
      char_of_def bit_simps)

text \<open>
  The claim as stated fails in three ways. An integer beyond the range of \<^verbatim>\<open>int\<close> is not
  returned: \<^verbatim>\<open>strconv.Atoi\<close> rejects it. The least \<^verbatim>\<open>int\<close> is rejected too, because its
  digits are converted before the sign is applied. And an integer or a marker at the
  very end of the text gives the error of an unexpected end, not \<^verbatim>\<open>b\<close>.
\<close>

theorem parseNth_counterexample:
  "parseNth ''99999999999999999999)''
     = Inl (NumError ''Atoi'' ''99999999999999999999'' ''value out of range'') \<and>
   parseNth ''-9223372036854775808)''
     = Inl (NumError ''Atoi'' ''9223372036854775808'' ''value out of range'') \<and>
   parseNth ''5''
     = Inl (ErrorsNew ''unexpected EOF while attempting to parse expression of form an+b'') \<and>
   parseNth ''2n''
     = Inl (ErrorsNew ''unexpected EOF while attempting to parse expression of form an+b'')"
  by (simp add: parseNth_def parseNth_positiveA_def parseNth_negativeA_def parseNth_readA_def
      parseNth_readN_def parseNth_eof_def parseInteger_def Atoi_def decimalValue_def
      skipWhitespace_def isDigit_def isN_def)


section \<open>Properties of compilation\<close>

lemma parsePseudoclassSelector_colon:
  "parsePseudoclassSelector sel '':'' = Inl (RuntimePanic ''index out of range'')"
  by (subst parsePseudoclassSelector.simps) simp

lemma skipWhitespace_loop_nonspace:
  "\<not> isSpace c \<Longrightarrow> c \<noteq> CHR ''/'' \<Longrightarrow> skipWhitespace_loop (c # cs) = c # cs"
  by simp

text \<open>
  Claim C2 fails on the code: \<^verbatim>\<open>parsePseudoclassSelector\<close> reads \<^verbatim>\<open>p.s[p.i]\<close> after the
  colon without comparing \<^verbatim>\<open>p.i\<close> with the length, so compiling a text that ends with a
  colon panics with an index out of range instead of returning a parse error.
\<close>

theorem Compile_colon_panics:
  "Compile sel '':'' = Inl (RuntimePanic ''index out of range'') \<and>
   Compile sel ''a:'' = Inl (RuntimePanic ''index out of range'')"
proof
  have "parseSimpleSelectorSequence sel '':'' = Inl (RuntimePanic ''index out of range'')"
    by (subst parseSimpleSelectorSequence.simps)
      (simp add: parseSimpleSelectorSequence_loop_pseudo parsePseudoclassSelector_colon
        defaultMatch_def)
  then show "Compile sel '':'' = Inl (RuntimePanic ''index out of range'')"
    by (simp add: Compile_def parseSelectorGroup_eq parseSelector_eq skipWhitespace_def isSpace_def)
next
  have "parseIdentifier ''a:'' = Inr (''a'', '':'')"
    by (simp add: parseIdentifier_def parseName_def nameStart_def nameChar_def)
  then have "parseSimpleSelectorSequence sel ''a:'' = Inl (RuntimePanic ''index out of range'')"
    by (subst parseSimpleSelectorSequence.simps)
      (simp add: parseSimpleSelectorSequence_loop_pseudo parsePseudoclassSelector_colon
        defaultMatch_def parseTypeSelector_def)
  then show "Compile sel ''a:'' = Inl (RuntimePanic ''index out of range'')"
    by (simp add: Compile_def parseSelectorGroup_eq parseSelector_eq skipWhitespace_def isSpace_def)
qed


section \<open>Properties of the grammar parser\<close>

text \<open>The loop of a compound, by its clauses.\<close>

lemma parseSimpleSelectorSequence_loop_eq:
  "parseSimpleSelectorSequence_loop sel result s =
     (if startsClause s then
        (case parseClause sel s of
           Inl err \<Rightarrow> Inl err
         | Inr (ns, s') \<Rightarrow>
             (case addClause sel result ns of
                Inl err \<Rightarrow> Inl err
              | Inr result' \<Rightarrow> parseSimpleSelectorSequence_loop sel result' s'))
      else Inr (result, s))"
proof (cases s)
  case Nil
  then show ?thesis
    by (subst parseSimpleSelectorSequence_loop.simps) (simp add: startsClause_def)
next
  case (Cons c cs)
  show ?thesis
    unfolding Cons
    by (subst parseSimpleSelectorSequence_loop.simps)
      (auto simp: startsClause_def parseClause_def split: sum.splits dest: parse_shorter(1))
qed

lemma addClause_PseudoElement:
  "addClause sel result ns = Inr result' \<Longrightarrow> PseudoElement result' = PseudoElement ns"
  by (auto simp: addClause_def split: if_splits)

lemma loop_last_clause:
  "parseSimpleSelectorSequence_loop sel result s = Inr (r, s') \<Longrightarrow>
   (if startsClause s
    then parsedClauses sel s \<noteq> [] \<and> PseudoElement r = PseudoElement (last (parsedClauses sel s))
    else r = result \<and> s' = s)"
proof (induction "length s" arbitrary: s result rule: less_induct)
  case less
  show ?case
  proof (cases "startsClause s")
    case False
    with less.prems show ?thesis
      by (subst (asm) parseSimpleSelectorSequence_loop_eq) simp
  next
    case True
    from less.prems True obtain ns s1 result1 where
      c: "parseClause sel s = Inr (ns, s1)" and a: "addClause sel result ns = Inr result1"
      and l: "parseSimpleSelectorSequence_loop sel result1 s1 = Inr (r, s')"
      by (subst (asm) parseSimpleSelectorSequence_loop_eq) (auto split: sum.splits)
    have p: "parsedClauses sel s = ns # parsedClauses sel s1"
      using True c by (subst parsedClauses.simps) simp
    have ih: "if startsClause s1
      then parsedClauses sel s1 \<noteq> [] \<and> PseudoElement r = PseudoElement (last (parsedClauses sel s1))
      else r = result1 \<and> s' = s1"
      using less.hyps [OF parseClause_shorter [OF c] l] .
    show ?thesis
    proof (cases "startsClause s1")
      case True
      with ih p \<open>startsClause s\<close> show ?thesis by simp
    next
      case False
      then have "parsedClauses sel s1 = []" by (subst parsedClauses.simps) simp
      with False ih p \<open>startsClause s\<close> addClause_PseudoElement [OF a] show ?thesis by simp
    qed
  qed
qed

lemma defaultMatch_PseudoElement:
  "defaultMatch x = Inr (r, s') \<Longrightarrow> \<exists>r0. x = Inr (r0, s') \<and> PseudoElement r = PseudoElement r0"
  by (cases x) (auto simp: defaultMatch_def split: if_splits)

lemma out_start_match_shape: "clauseShape (out_start\<lparr>match := Some m\<rparr>)"
  by (simp add: clauseShape_def out_start_def)

lemma parsePseudoclass_contains_shape:
  "parsePseudoclass_contains sel name s = Inr (r, s') \<Longrightarrow> clauseShape r"
  unfolding parsePseudoclass_contains_def
  by (auto split: if_splits list.splits sum.splits prod.splits simp: out_start_match_shape)

lemma parsePseudoclass_matches_shape:
  "parsePseudoclass_matches sel name s = Inr (r, s') \<Longrightarrow> clauseShape r"
  unfolding parsePseudoclass_matches_def
  by (auto split: if_splits list.splits sum.splits prod.splits simp: out_start_match_shape)

lemma parsePseudoclass_nth_shape:
  "parsePseudoclass_nth sel name s = Inr (r, s') \<Longrightarrow> clauseShape r"
  unfolding parsePseudoclass_nth_def
  by (auto split: if_splits list.splits sum.splits prod.splits simp: out_start_match_shape)

lemma parsePseudoclass_plain_shape:
  "parsePseudoclass_plain sel name = Inr r \<Longrightarrow> clauseShape r"
  unfolding parsePseudoclass_plain_def
  by (auto split: if_splits simp: out_start_match_shape)
    (simp add: clauseShape_def out_start_def)

lemma parsePseudoclassSelector_cases_shape:
  assumes "parsePseudoclassSelector_cases sel name s = Inr (r, s')"
  shows "clauseShape r"
proof (cases "name = ''contains'' \<or> name = ''containsown''")
  case True
  from assms have "parsePseudoclass_contains sel name s = Inr (r, s')"
    unfolding parsePseudoclassSelector_cases_def if_P [OF True] .
  then show ?thesis by (rule parsePseudoclass_contains_shape)
next
  case c: False
  show ?thesis
  proof (cases "name = ''matches'' \<or> name = ''matchesown''")
    case True
    from assms have "parsePseudoclass_matches sel name s = Inr (r, s')"
      unfolding parsePseudoclassSelector_cases_def if_not_P [OF c] if_P [OF True] .
    then show ?thesis by (rule parsePseudoclass_matches_shape)
  next
    case m: False
    show ?thesis
    proof (cases "name = ''nth-child'' \<or> name = ''nth-last-child'' \<or> name = ''nth-of-type''
              \<or> name = ''nth-last-of-type''")
      case True
      from assms have "parsePseudoclass_nth sel name s = Inr (r, s')"
        unfolding parsePseudoclassSelector_cases_def if_not_P [OF c] if_not_P [OF m]
          if_P [OF True] .
      then show ?thesis by (rule parsePseudoclass_nth_shape)
    next
      case n: False
      from assms have "(case parsePseudoclass_plain sel name of
          Inl err \<Rightarrow> Inl err | Inr out \<Rightarrow> Inr (out, s)) = Inr (r, s')"
        unfolding parsePseudoclassSelector_cases_def if_not_P [OF c] if_not_P [OF m]
          if_not_P [OF n] .
      then have "parsePseudoclass_plain sel name = Inr r"
        by (cases "parsePseudoclass_plain sel name") simp_all
      then show ?thesis by (rule parsePseudoclass_plain_shape)
    qed
  qed
qed

lemma parsePseudoclassSelector_shape:
  assumes "parsePseudoclassSelector sel s = Inr (r, s')"
  shows "clauseShape r"
proof -
  from assms obtain c1 cs1 name s1 where s: "s = CHR '':'' # c1 # cs1"
    and id: "parseIdentifier (if c1 = CHR '':'' then cs1 else c1 # cs1) = Inr (name, s1)"
    by (subst (asm) parsePseudoclassSelector.simps)
      (auto split: list.splits sum.splits if_splits)
  show ?thesis
  proof (cases "isRelativeName (toLowerASCII name)")
    case False
    with assms s id have "parsePseudoclassSelector_cases sel (toLowerASCII name) s1 = Inr (r, s')"
      by (subst (asm) parsePseudoclassSelector.simps) simp
    then show ?thesis by (rule parsePseudoclassSelector_cases_shape)
  next
    case True
    with assms s id obtain grp where "r = relativeSelector sel (toLowerASCII name) grp"
      by (subst (asm) parsePseudoclassSelector.simps) (auto split: sum.splits if_splits)
    then show ?thesis
      by (simp add: relativeSelector_def clauseShape_def out_start_def)
  qed
qed

lemma simple_clause_shape:
  "parseIDSelector sel t = Inr (ns, u) \<or> parseClassSelector sel t = Inr (ns, u)
     \<or> parseAttributeSelector sel t = Inr (ns, u) \<Longrightarrow>
   match ns \<noteq> None \<and> PseudoElement ns = []"
  by (auto simp: parseIDSelector_def parseClassSelector_def parseAttributeSelector_def
      split: list.splits if_splits sum.splits)

text \<open>Equations and definitions that evaluate the parser on a given text.\<close>

lemmas parse_eval =
  parsePseudoclassSelector.simps parseSimpleSelectorSequence_loop_eq
  parseSimpleSelectorSequence.simps parseSelector_loop_eq parseSelector_eq
  parseSelectorGroup_loop_eq parseSelectorGroup_eq

lemmas lexer_eval =
  startsClause_def parseClause_def parseIDSelector_def parseClassSelector_def
  parseIdentifier_def parseName_def nameStart_def nameChar_def
  toLowerASCII_def lowerASCII_def isRelativeName_def
  parsePseudoclassSelector_cases_def parsePseudoclass_plain_def isPseudoElementName_def
  out_start_def addClause_def defaultMatch_def oneSelector_zero_def
  skipWhitespace_def isSpace_def nextCombinator_def
  char_of_def bit_simps

lemma Less_lexLess: "Less s t = lexLess s t"
  by (cases s; cases t) (auto simp: lexLess_def)

lemma lexLess_below: "\<not> lexLess r b \<Longrightarrow> lexLess a b \<Longrightarrow> \<not> lexLess r a"
  by (cases r; cases a; cases b) (auto simp: lexLess_def)

lemma lexLess_above: "\<not> lexLess r a \<Longrightarrow> \<not> lexLess a x \<Longrightarrow> \<not> lexLess r x"
  by (cases r; cases a; cases x) (auto simp: lexLess_def)

lemma lexLess_zero: "\<not> lexLess (0, 0, 0) x \<Longrightarrow> x = (0, 0, 0)"
  by (cases x) (auto simp: lexLess_def word_gt_0)

lemma lexLess_irrefl: "\<not> lexLess x x"
  by (cases x) (auto simp: lexLess_def)

lemma maximumSpecificity_loop_greatest:
  "(maximumSpecificity_loop out xs = out \<or> maximumSpecificity_loop out xs \<in> set (map Specificity xs))
   \<and> \<not> lexLess (maximumSpecificity_loop out xs) out
   \<and> (\<forall>x \<in> set xs. \<not> lexLess (maximumSpecificity_loop out xs) (Specificity x))"
proof (induction xs arbitrary: out)
  case Nil
  show ?case by (simp add: lexLess_irrefl)
next
  case (Cons x xs)
  let ?o = "if Less out (Specificity x) then Specificity x else out"
  let ?r = "maximumSpecificity_loop ?o xs"
  have r: "maximumSpecificity_loop out (x # xs) = ?r" by simp
  note ih = Cons.IH [of ?o]
  have o1: "\<not> lexLess ?r out"
  proof (cases "Less out (Specificity x)")
    case True
    then show ?thesis using ih lexLess_below [of ?r "Specificity x" out]
      by (simp add: Less_lexLess)
  next
    case False
    then show ?thesis using ih by simp
  qed
  have o2: "\<not> lexLess ?r (Specificity x)"
  proof (cases "Less out (Specificity x)")
    case True
    then show ?thesis using ih by simp
  next
    case False
    then show ?thesis using ih lexLess_above [of ?r out "Specificity x"]
      by (simp add: Less_lexLess)
  qed
  have o3: "?r = out \<or> ?r \<in> set (map Specificity (x # xs))"
    using ih by (auto split: if_splits)
  show ?case
    unfolding r using o1 o2 o3 ih by auto
qed

lemma maximumSpecificity_greatest:
  assumes "grp \<noteq> []"
  shows "greatestOf (maximumSpecificity grp) (map Specificity grp)"
proof -
  let ?r = "maximumSpecificity grp"
  note g = maximumSpecificity_loop_greatest [of "(0, 0, 0)" grp, folded maximumSpecificity_def]
  have a: "\<forall>x \<in> set grp. \<not> lexLess ?r (Specificity x)" using g by blast
  have "?r \<in> set (map Specificity grp)"
  proof (cases "?r = (0, 0, 0)")
    case False
    then show ?thesis using g by blast
  next
    case True
    obtain x xs where x: "grp = x # xs" using assms by (cases grp) auto
    have "\<not> lexLess (0, 0, 0) (Specificity x)" using a True x by simp
    then have "Specificity x = (0, 0, 0)" by (rule lexLess_zero)
    then show ?thesis using True x by simp
  qed
  then show ?thesis using a by (simp add: greatestOf_def list_all_iff)
qed

lemma parseSelectorGroup_loop_nonempty:
  "parseSelectorGroup_loop sel g s = Inr (r, s') \<Longrightarrow> g \<noteq> [] \<Longrightarrow> r \<noteq> []"
proof (induction "length s" arbitrary: s g rule: less_induct)
  case less
  show ?case
  proof (cases "s \<noteq> [] \<and> hd s = CHR '',''")
    case False
    with less.prems show ?thesis
      by (subst (asm) parseSelectorGroup_loop_eq) (auto split: list.splits)
  next
    case True
    then obtain cs where s: "s = CHR '','' # cs" by (cases s) auto
    from less.prems(1) obtain c' s1 where p: "parseSelector sel cs = Inr (c', s1)"
      and l: "parseSelectorGroup_loop sel (g @ [c']) s1 = Inr (r, s')"
      unfolding s by (subst (asm) parseSelectorGroup_loop_eq) (auto split: sum.splits)
    have "length s1 < length s" using parse_shorter(5) [OF p] s by simp
    from less.hyps [OF this l] show ?thesis by simp
  qed
qed

lemma parseSelectorGroup_nonempty:
  "parseSelectorGroup sel s = Inr (grp, s') \<Longrightarrow> grp \<noteq> []"
  by (subst (asm) parseSelectorGroup_eq)
    (auto split: sum.splits dest: parseSelectorGroup_loop_nonempty)

lemma lowerASCII_n: "lowerASCII c = CHR ''n'' \<Longrightarrow> c = CHR ''n'' \<or> c = CHR ''N''"
  using lowerASCII_cases [of c "CHR ''n''"] byte_eq_iff [of c "CHR ''N''"] by auto

lemma lowerASCII_h: "lowerASCII c = CHR ''h'' \<Longrightarrow> c = CHR ''h'' \<or> c = CHR ''H''"
  using lowerASCII_cases [of c "CHR ''h''"] byte_eq_iff [of c "CHR ''H''"] by auto

lemma relative_name_identifier:
  assumes "isRelativeName (toLowerASCII name)"
  shows "parseIdentifier (name @ CHR ''('' # t) = Inr (name, CHR ''('' # t)"
    and "name \<noteq> []" and "hd name \<noteq> CHR '':''"
proof -
  have k: "toLowerASCII name = ''not'' \<or> toLowerASCII name = ''has''
      \<or> toLowerASCII name = ''haschild''"
    using assms by (simp add: isRelativeName_def)
  then have "\<forall>d \<in> set (toLowerASCII name). nameChar d"
    by (auto simp: nameChar_def)
  then have nc: "\<forall>c \<in> set name. nameChar c" by (rule toLowerASCII_nameChars)
  obtain c cs where w: "name = c # cs" using k by (cases name) (auto simp: toLowerASCII_def)
  have "lowerASCII c = CHR ''n'' \<or> lowerASCII c = CHR ''h''"
    using k w by (auto simp: toLowerASCII_def)
  then have c: "c = CHR ''n'' \<or> c = CHR ''N'' \<or> c = CHR ''h'' \<or> c = CHR ''H''"
    using lowerASCII_n lowerASCII_h by blast
  have pn: "parseName (c # cs @ CHR ''('' # t) = Inr (c # cs, CHR ''('' # t)"
    using parseName_run [of name "CHR ''('' # t"] nc w by (simp add: nameChar_def)
  have n1: "c \<noteq> CHR ''-''" "nameStart c" "c \<noteq> CHR '':''"
    using c by (auto simp: nameStart_def)
  show "parseIdentifier (name @ CHR ''('' # t) = Inr (name, CHR ''('' # t)"
    unfolding w using n1 pn by (simp add: parseIdentifier_def)
  show "name \<noteq> []" using w by simp
  show "hd name \<noteq> CHR '':''" using w n1 by simp
qed

lemmas relative_eval =
  relativeSelector_def consumeParenthesis_def consumeClosingParenthesis_def
  errExpectedClosingParenthesis_def maximumSpecificity_def greatestOf_def lexLess_def


section \<open>The universal selector, pseudo-elements and relative pseudo-classes\<close>

text \<open>
  Claim C8. A compound that is only the universal selector \<^verbatim>\<open>*\<close>, with no clause after
  it, is parsed into the matcher that is true of a node exactly when the node is an
  element; compiling \<^verbatim>\<open>"*"\<close> gives a selector that is true exactly of the element nodes,
  so false of every text, comment and document node; and \<^verbatim>\<open>compoundSelector.Match\<close> of a
  compound with no sub-matchers is true exactly of the element nodes.
\<close>

theorem universal_selector_matches_elements:
  "(\<not> startsClause rest \<longrightarrow>
      parseSimpleSelectorSequence sel (CHR ''*'' # rest)
        = Inr (oneSelector_zero\<lparr>match := Some (\<lambda>n. Type n = ElementNode)\<rparr>, rest)) \<and>
   (\<exists>m. Compile sel ''*'' = Inr m \<and> (\<forall>n. m n = (Type n = ElementNode))) \<and>
   (\<forall>n. compoundSelector_Match [] n = (Type n = ElementNode))"
proof (intro conjI impI)
  assume "\<not> startsClause rest"
  then show "parseSimpleSelectorSequence sel (CHR ''*'' # rest)
        = Inr (oneSelector_zero\<lparr>match := Some (\<lambda>n. Type n = ElementNode)\<rparr>, rest)"
    by (subst parseSimpleSelectorSequence.simps)
      (simp add: parseSimpleSelectorSequence_loop_eq defaultMatch_def oneSelector_zero_def)
next
  have "parseSimpleSelectorSequence sel ''*''
      = Inr (oneSelector_zero\<lparr>match := Some (\<lambda>n. Type n = ElementNode)\<rparr>, [])"
    by (subst parseSimpleSelectorSequence.simps)
      (simp add: parseSimpleSelectorSequence_loop_eq defaultMatch_def oneSelector_zero_def
        startsClause_def)
  then have "Compile sel ''*''
      = Inr (Selector_Match [oneSelector_zero\<lparr>match := Some (\<lambda>n. Type n = ElementNode)\<rparr>])"
    by (simp add: Compile_def parseSelectorGroup_eq parseSelectorGroup_loop_eq parseSelector_eq
        parseSelector_loop_eq nextCombinator_def skipWhitespace_def isSpace_def)
  then show "\<exists>m. Compile sel ''*'' = Inr m \<and> (\<forall>n. m n = (Type n = ElementNode))"
    by simp
next
  show "\<forall>n. compoundSelector_Match [] n = (Type n = ElementNode)"
    by (simp add: compoundSelector_Match_def)
qed

theorem universal_selector_matches_elements_witness:
  "\<forall>sel :: 'r selectors.
     parseSimpleSelectorSequence sel ''* > p''
       = Inr (oneSelector_zero\<lparr>match := Some (\<lambda>n. Type n = ElementNode)\<rparr>, '' > p'') \<and>
     (\<exists>m. Compile sel ''*'' = Inr m \<and>
        m (At (Tree ElementNode ''p'' [] []) Top) \<and>
        \<not> m (At (Tree TextNode ''hello'' [] []) Top) \<and>
        \<not> m (At (Tree CommentNode ''note'' [] []) Top) \<and>
        \<not> m (At (Tree DocumentNode [] [] [Tree ElementNode ''html'' [] []]) Top))"
proof (intro allI)
  fix sel :: "'r selectors"
  show "parseSimpleSelectorSequence sel ''* > p''
       = Inr (oneSelector_zero\<lparr>match := Some (\<lambda>n. Type n = ElementNode)\<rparr>, '' > p'') \<and>
     (\<exists>m. Compile sel ''*'' = Inr m \<and>
        m (At (Tree ElementNode ''p'' [] []) Top) \<and>
        \<not> m (At (Tree TextNode ''hello'' [] []) Top) \<and>
        \<not> m (At (Tree CommentNode ''note'' [] []) Top) \<and>
        \<not> m (At (Tree DocumentNode [] [] [Tree ElementNode ''html'' [] []]) Top))"
    using universal_selector_matches_elements [of "'' > p''" sel]
    by (auto simp: startsClause_def)
qed

text \<open>
  Claim C10. When \<^verbatim>\<open>parseSimpleSelectorSequence\<close> succeeds on a compound with at least
  one clause after its base (the universal selector, no base, or a type selector),
  the \<^verbatim>\<open>PseudoElement\<close> of the result is that of the last clause read. An id, class or
  attribute clause has the empty \<^verbatim>\<open>PseudoElement\<close>, and so has a pseudo-class that
  installs a matcher; a clause without a matcher is a pseudo-element and carries its
  name. Once the compound has a matcher, adding a clause never fails and sets
  \<^verbatim>\<open>PseudoElement\<close> to that of the clause: a second pseudo-element replaces the first, and
  an ordinary clause after a pseudo-element erases it.
\<close>

theorem PseudoElement_of_last_clause:
  "(parseSimpleSelectorSequence sel (CHR ''*'' # cs) = Inr (r, s') \<and> startsClause cs \<longrightarrow>
      parsedClauses sel cs \<noteq> [] \<and>
      PseudoElement r = PseudoElement (last (parsedClauses sel cs))) \<and>
   (parseSimpleSelectorSequence sel s = Inr (r, s') \<and> startsClause s \<longrightarrow>
      parsedClauses sel s \<noteq> [] \<and>
      PseudoElement r = PseudoElement (last (parsedClauses sel s))) \<and>
   (parseSimpleSelectorSequence sel s = Inr (r, s') \<and> s \<noteq> [] \<and> hd s \<noteq> CHR ''*'' \<and>
    \<not> startsClause s \<and> parseTypeSelector sel s = Inr (b, s1) \<and> startsClause s1 \<longrightarrow>
      parsedClauses sel s1 \<noteq> [] \<and>
      PseudoElement r = PseudoElement (last (parsedClauses sel s1))) \<and>
   (parseIDSelector sel t = Inr (ns, u) \<or> parseClassSelector sel t = Inr (ns, u)
      \<or> parseAttributeSelector sel t = Inr (ns, u) \<longrightarrow>
      match ns \<noteq> None \<and> PseudoElement ns = []) \<and>
   (parsePseudoclassSelector sel t = Inr (ns, u) \<longrightarrow>
      (if match ns = None then isPseudoElementName (PseudoElement ns)
       else PseudoElement ns = [])) \<and>
   (match result \<noteq> None \<longrightarrow>
      (\<exists>result'. addClause sel result ns = Inr result' \<and> match result' \<noteq> None \<and>
         PseudoElement result' = PseudoElement ns))"
proof (intro conjI impI; (elim conjE)?)
  assume a: "parseSimpleSelectorSequence sel (CHR ''*'' # cs) = Inr (r, s')" "startsClause cs"
  from a(1) have "defaultMatch (parseSimpleSelectorSequence_loop sel oneSelector_zero cs) = Inr (r, s')"
    by (subst (asm) parseSimpleSelectorSequence.simps) simp
  from defaultMatch_PseudoElement [OF this] obtain r0 where
    l: "parseSimpleSelectorSequence_loop sel oneSelector_zero cs = Inr (r0, s')"
    and e: "PseudoElement r = PseudoElement r0" by blast
  from loop_last_clause [OF l] a(2) e
  show "parsedClauses sel cs \<noteq> []"
    "PseudoElement r = PseudoElement (last (parsedClauses sel cs))" by simp_all
next
  assume a: "parseSimpleSelectorSequence sel s = Inr (r, s')" "startsClause s"
  from a(2) obtain c cs where s: "s = c # cs"
    and c: "c = CHR ''#'' \<or> c = CHR ''.'' \<or> c = CHR ''['' \<or> c = CHR '':''"
    by (cases s) (auto simp: startsClause_def)
  from c have n: "c \<noteq> CHR ''*''" by auto
  from a(1) have "defaultMatch (parseSimpleSelectorSequence_loop sel oneSelector_zero s) = Inr (r, s')"
    unfolding s using c n by (subst (asm) parseSimpleSelectorSequence.simps) simp
  from defaultMatch_PseudoElement [OF this] obtain r0 where
    l: "parseSimpleSelectorSequence_loop sel oneSelector_zero s = Inr (r0, s')"
    and e: "PseudoElement r = PseudoElement r0" by blast
  from loop_last_clause [OF l] a(2) e
  show "parsedClauses sel s \<noteq> []"
    "PseudoElement r = PseudoElement (last (parsedClauses sel s))" by simp_all
next
  assume a: "parseSimpleSelectorSequence sel s = Inr (r, s')" "s \<noteq> []" "hd s \<noteq> CHR ''*''"
    "\<not> startsClause s" "parseTypeSelector sel s = Inr (b, s1)" "startsClause s1"
  from a(2) obtain c cs where s: "s = c # cs" by (cases s) auto
  have c: "c \<noteq> CHR ''*''" "\<not> (c = CHR ''#'' \<or> c = CHR ''.'' \<or> c = CHR ''['' \<or> c = CHR '':'')"
    using a(3,4) s by (auto simp: startsClause_def)
  from a(1) have "defaultMatch (parseSimpleSelectorSequence_loop sel b s1) = Inr (r, s')"
    using a(5) c unfolding s by (subst (asm) parseSimpleSelectorSequence.simps) simp
  from defaultMatch_PseudoElement [OF this] obtain r0 where
    l: "parseSimpleSelectorSequence_loop sel b s1 = Inr (r0, s')"
    and e: "PseudoElement r = PseudoElement r0" by blast
  from loop_last_clause [OF l] a(6) e
  show "parsedClauses sel s1 \<noteq> []"
    "PseudoElement r = PseudoElement (last (parsedClauses sel s1))" by simp_all
next
  assume "parseIDSelector sel t = Inr (ns, u) \<or> parseClassSelector sel t = Inr (ns, u)
      \<or> parseAttributeSelector sel t = Inr (ns, u)"
  from simple_clause_shape [OF this]
  show "match ns \<noteq> None" "PseudoElement ns = []" by simp_all
next
  assume "parsePseudoclassSelector sel t = Inr (ns, u)"
  from parsePseudoclassSelector_shape [OF this]
  show "if match ns = None then isPseudoElementName (PseudoElement ns) else PseudoElement ns = []"
    by (simp add: clauseShape_def)
next
  assume "match result \<noteq> None"
  then show "\<exists>result'. addClause sel result ns = Inr result' \<and> match result' \<noteq> None \<and>
         PseudoElement result' = PseudoElement ns"
    by (auto simp: addClause_def)
qed

theorem PseudoElement_of_last_clause_witness:
  "\<forall>sel :: 'r selectors.
     (\<exists>r. parseSimpleSelectorSequence sel ''.c::before::after'' = Inr (r, []) \<and>
        PseudoElement r = ''after'' \<and>
        PseudoElement (last (parsedClauses sel ''.c::before::after'')) = ''after'') \<and>
     (\<exists>r. parseSimpleSelectorSequence sel ''*.c::before.d'' = Inr (r, []) \<and>
        PseudoElement r = [] \<and>
        PseudoElement (last (parsedClauses sel ''.c::before.d'')) = [])"
proof (intro allI conjI)
  fix sel :: "'r selectors"
  have "\<exists>r. parseSimpleSelectorSequence sel ''.c::before::after'' = Inr (r, []) \<and>
      PseudoElement r = ''after''"
    by (simp add: parse_eval lexer_eval)
  then obtain r where r: "parseSimpleSelectorSequence sel ''.c::before::after'' = Inr (r, [])"
    "PseudoElement r = ''after''" by (elim exE conjE)
  have "startsClause ''.c::before::after''" by (simp add: startsClause_def)
  with r PseudoElement_of_last_clause [of sel _ r "[]" "''.c::before::after''"]
  show "\<exists>r. parseSimpleSelectorSequence sel ''.c::before::after'' = Inr (r, []) \<and>
        PseudoElement r = ''after'' \<and>
        PseudoElement (last (parsedClauses sel ''.c::before::after'')) = ''after''"
    by simp
next
  fix sel :: "'r selectors"
  have "\<exists>r. parseSimpleSelectorSequence sel ''*.c::before.d'' = Inr (r, []) \<and>
      PseudoElement r = []"
    by (simp add: parse_eval lexer_eval)
  then obtain r where r: "parseSimpleSelectorSequence sel ''*.c::before.d'' = Inr (r, [])"
    "PseudoElement r = []" by (elim exE conjE)
  have "startsClause ''.c::before.d''" by (simp add: startsClause_def)
  with r PseudoElement_of_last_clause [of sel "''.c::before.d''" r "[]"]
  show "\<exists>r. parseSimpleSelectorSequence sel ''*.c::before.d'' = Inr (r, []) \<and>
        PseudoElement r = [] \<and>
        PseudoElement (last (parsedClauses sel ''.c::before.d'')) = []"
    by simp
qed


text \<open>
  Claim C9. When \<^verbatim>\<open>parsePseudoclassSelector\<close> succeeds on \<^verbatim>\<open>:not(...)\<close>, \<^verbatim>\<open>:has(...)\<close> or
  \<^verbatim>\<open>:haschild(...)\<close>, in any letter case and after one colon or two, the text in the
  parentheses is parsed as a selector group, and the specificity of the clause is the
  greatest of the specificities of the alternatives of that group in the lexicographic
  order with the id component first: the value of \<^verbatim>\<open>maximumSpecificity\<close>, which is the
  specificity of one of the alternatives and is exceeded by none.
\<close>

theorem relative_pseudoclass_specificity:
  "(colons = '':'' \<or> colons = ''::'') \<and> isRelativeName (toLowerASCII name) \<and>
   parsePseudoclassSelector sel (colons @ name @ CHR ''('' # t) = Inr (out, rest) \<longrightarrow>
     (\<exists>grp s2. parseSelectorGroup sel (snd (skipWhitespace t)) = Inr (grp, s2) \<and>
        Specificity out = maximumSpecificity grp \<and>
        greatestOf (Specificity out) (map Specificity grp))"
proof (intro impI; elim conjE)
  assume c: "colons = '':'' \<or> colons = ''::''"
    and n: "isRelativeName (toLowerASCII name)"
    and p: "parsePseudoclassSelector sel (colons @ name @ CHR ''('' # t) = Inr (out, rest)"
  note i = relative_name_identifier [OF n]
  obtain c1 cs1 where w: "name = c1 # cs1" using i(2) by (cases name) auto
  have c1: "c1 \<noteq> CHR '':''" using i(3) w by simp
  have "parsePseudoclassSelector sel (colons @ name @ CHR ''('' # t) =
      (case parseSelectorGroup sel (snd (skipWhitespace t)) of
         Inl parseErr \<Rightarrow> Inl parseErr
       | Inr (grp, s2) \<Rightarrow>
           if \<not> fst (consumeClosingParenthesis s2) then Inl errExpectedClosingParenthesis
           else Inr (relativeSelector sel (toLowerASCII name) grp,
                     snd (consumeClosingParenthesis s2)))"
    using c
  proof
    assume "colons = '':''"
    then show ?thesis
      using i(1) [of t] n c1 unfolding w
      by (subst parsePseudoclassSelector.simps) (simp add: consumeParenthesis_def)
  next
    assume "colons = ''::''"
    then show ?thesis
      using i(1) [of t] n
      by (subst parsePseudoclassSelector.simps) (simp add: consumeParenthesis_def)
  qed
  with p obtain grp s2 where g: "parseSelectorGroup sel (snd (skipWhitespace t)) = Inr (grp, s2)"
    and o: "out = relativeSelector sel (toLowerASCII name) grp"
    by (auto split: sum.splits if_splits)
  have s: "Specificity out = maximumSpecificity grp"
    unfolding o by (simp add: relativeSelector_def out_start_def)
  have "greatestOf (maximumSpecificity grp) (map Specificity grp)"
    using parseSelectorGroup_nonempty [OF g] by (rule maximumSpecificity_greatest)
  with g s show "\<exists>grp s2. parseSelectorGroup sel (snd (skipWhitespace t)) = Inr (grp, s2) \<and>
        Specificity out = maximumSpecificity grp \<and>
        greatestOf (Specificity out) (map Specificity grp)"
    by auto
qed

theorem relative_pseudoclass_specificity_witness:
  "\<forall>sel :: 'r selectors.
     (\<exists>out. parsePseudoclassSelector sel '':not(.a, #b)'' = Inr (out, []) \<and>
        Specificity out = (1, 0, 0) \<and>
        (\<exists>grp. parseSelectorGroup sel ''.a, #b)'' = Inr (grp, '')'') \<and>
           map Specificity grp = [(0, 1, 0), (1, 0, 0)] \<and>
           greatestOf (Specificity out) (map Specificity grp))) \<and>
     (\<exists>out. parsePseudoclassSelector sel ''::HAS(.a)'' = Inr (out, []) \<and>
        Specificity out = (0, 1, 0))"
proof (intro allI conjI)
  fix sel :: "'r selectors"
  have "\<exists>grp. parseSelectorGroup sel ''.a, #b)'' = Inr (grp, '')'') \<and>
      map Specificity grp = [(0, 1, 0), (1, 0, 0)]"
    by (simp add: parse_eval lexer_eval)
  then obtain grp where g: "parseSelectorGroup sel ''.a, #b)'' = Inr (grp, '')'')"
    "map Specificity grp = [(0, 1, 0), (1, 0, 0)]" by (elim exE conjE)
  have "\<exists>out. parsePseudoclassSelector sel '':not(.a, #b)'' = Inr (out, []) \<and>
      Specificity out = (1, 0, 0)"
    by (simp add: parse_eval lexer_eval relative_eval)
  then obtain out where o: "parsePseudoclassSelector sel '':not(.a, #b)'' = Inr (out, [])"
    "Specificity out = (1, 0, 0)" by (elim exE conjE)
  have "('':'' = '':'' \<or> '':'' = ''::'') \<and> isRelativeName (toLowerASCII ''not'') \<and>
      parsePseudoclassSelector sel ('':'' @ ''not'' @ CHR ''('' # ''.a, #b)'') = Inr (out, [])"
    using o(1) by (simp add: lexer_eval)
  with relative_pseudoclass_specificity [of "'':''" "''not''" sel "''.a, #b)''" out "[]"]
  have "\<exists>grp s2. parseSelectorGroup sel (snd (skipWhitespace ''.a, #b)'')) = Inr (grp, s2) \<and>
      Specificity out = maximumSpecificity grp \<and>
      greatestOf (Specificity out) (map Specificity grp)"
    by (rule mp)
  then obtain grp' s2 where h: "parseSelectorGroup sel (snd (skipWhitespace ''.a, #b)'')) = Inr (grp', s2)"
    "greatestOf (Specificity out) (map Specificity grp')"
    by (elim exE conjE)
  have "grp' = grp"
    using h(1) g(1) by (simp add: skipWhitespace_def isSpace_def)
  with h(2) have "greatestOf (Specificity out) (map Specificity grp)"
    by (simp only:)
  with g have "\<exists>grp. parseSelectorGroup sel ''.a, #b)'' = Inr (grp, '')'') \<and>
      map Specificity grp = [(0, 1, 0), (1, 0, 0)] \<and>
      greatestOf (Specificity out) (map Specificity grp)"
    by (intro exI [of _ grp] conjI)
  with o show "\<exists>out. parsePseudoclassSelector sel '':not(.a, #b)'' = Inr (out, []) \<and>
        Specificity out = (1, 0, 0) \<and>
        (\<exists>grp. parseSelectorGroup sel ''.a, #b)'' = Inr (grp, '')'') \<and>
           map Specificity grp = [(0, 1, 0), (1, 0, 0)] \<and>
           greatestOf (Specificity out) (map Specificity grp))"
    by (intro exI [of _ out] conjI)
next
  fix sel :: "'r selectors"
  show "\<exists>out. parsePseudoclassSelector sel ''::HAS(.a)'' = Inr (out, []) \<and>
        Specificity out = (0, 1, 0)"
    by (simp add: parse_eval lexer_eval relative_eval)
qed

end
